theory Spec2Isabelle
  imports Main "HOL-Library.Word" "HOL-Library.Multiset"
begin

section \<open>The heap engine of \<^verbatim>\<open>heap_sort.cpp\<close>\<close>

text \<open>
  The source keeps a binary max-heap in an \<^verbatim>\<open>int\<close> array addressed through a pointer
  \<^verbatim>\<open>int *a\<close>, with the root at index 1 and a sentinel at index 0, and two process-wide
  variables \<^verbatim>\<open>length\<close> and \<^verbatim>\<open>heap_size\<close>.

  \<^item> A C++ \<^verbatim>\<open>int\<close> is a 32-bit two's complement value: \<open>32 word\<close>, read with \<open>sint\<close>.
    Comparisons are signed. \<^verbatim>\<open>i << 1\<close> is \<open>push_bit 1\<close>: a result that does not fit wraps
    around, which is what C++20 defines and what compilers for the earlier standards
    produce, so that \<open>2^30 << 1\<close> is \<open>-2^31\<close>. \<^verbatim>\<open>n >>= 1\<close> is the arithmetic shift
    \<open>signed_drop_bit 1\<close>. The additions and decrements of the source
    (\<^verbatim>\<open>(i << 1) + 1\<close>, \<^verbatim>\<open>n--\<close>, \<^verbatim>\<open>heap_size--\<close>) never overflow: the first adds 1 to
    an even number, the other two run under the guards \<^verbatim>\<open>n >= 1\<close> and
    \<^verbatim>\<open>1 <= heap_size\<close>.
  \<^item> The memory reachable through the pointer is a partial map from the index to the
    stored \<^verbatim>\<open>int\<close>; its domain is the set of allocated slots. The pointer addresses the
    first slot of its allocation, so a negative index is never valid. An access to a
    slot that is not allocated is undefined behaviour in C++; the model stops there
    with the fault \<open>OutOfBounds\<close>.
  \<^item> The two globals are a record that every operation receives, and that
    \<^verbatim>\<open>build\<close> and \<^verbatim>\<open>heapsort\<close> return updated.
\<close>

type_synonym cint = "32 word"

type_synonym array = "int \<rightharpoonup> cint"

datatype fault = OutOfBounds

record globals =
  length_g :: cint
  heap_size :: cint

subsection \<open>Index arithmetic (lines 29--31)\<close>

definition parent :: "cint \<Rightarrow> cint" where
  "parent i = signed_drop_bit 1 i"

definition left :: "cint \<Rightarrow> cint" where
  "left i = push_bit 1 i"

definition right :: "cint \<Rightarrow> cint" where
  "right i = push_bit 1 i + 1"

subsection \<open>Array accesses\<close>

text \<open>\<^verbatim>\<open>a[i]\<close> as an rvalue, and the assignment \<^verbatim>\<open>a[i] = v\<close>.\<close>

definition rd :: "array \<Rightarrow> cint \<Rightarrow> fault + cint" where
  "rd a i =
     (if sint i < 0 then Inl OutOfBounds
      else case a (sint i) of None \<Rightarrow> Inl OutOfBounds | Some v \<Rightarrow> Inr v)"

definition wr :: "array \<Rightarrow> cint \<Rightarrow> cint \<Rightarrow> fault + array" where
  "wr a i v =
     (if sint i < 0 then Inl OutOfBounds
      else case a (sint i) of None \<Rightarrow> Inl OutOfBounds | Some _ \<Rightarrow> Inr (a(sint i \<mapsto> v)))"

text \<open>
  The three-assignment exchange \<^verbatim>\<open>tmp = a[i]; a[i] = a[j]; a[j] = tmp;\<close> of lines
  54--56 and 96--98.
\<close>

definition swap_cells :: "array \<Rightarrow> cint \<Rightarrow> cint \<Rightarrow> fault + array" where
  "swap_cells a i j =
     (case rd a i of Inl e \<Rightarrow> Inl e | Inr tmp \<Rightarrow>
      (case rd a j of Inl e \<Rightarrow> Inl e | Inr y \<Rightarrow>
       (case wr a i y of Inl e \<Rightarrow> Inl e | Inr a1 \<Rightarrow> wr a1 j tmp)))"

subsection \<open>\<^verbatim>\<open>heapfy\<close> (lines 45--59)\<close>

text \<open>
  Lines 46--52: the index of the largest of \<^verbatim>\<open>a[i]\<close>, \<^verbatim>\<open>a[lft]\<close> and \<^verbatim>\<open>a[rght]\<close>.
  \<^verbatim>\<open>&&\<close> evaluates its right operand, which reads the array, only when the bound test
  on the left holds.
\<close>

definition largest_of :: "globals \<Rightarrow> array \<Rightarrow> cint \<Rightarrow> fault + cint" where
  "largest_of g a i =
     (let lft = left i; rght = right i in
      case (if sint lft \<le> sint (heap_size g)
            then (case rd a i of Inl e \<Rightarrow> Inl e | Inr x \<Rightarrow>
                  (case rd a lft of Inl e \<Rightarrow> Inl e | Inr y \<Rightarrow>
                     Inr (if sint x < sint y then lft else i)))
            else Inr i) of
        Inl e \<Rightarrow> Inl e
      | Inr largest \<Rightarrow>
          if sint rght \<le> sint (heap_size g)
          then (case rd a largest of Inl e \<Rightarrow> Inl e | Inr x \<Rightarrow>
                (case rd a rght of Inl e \<Rightarrow> Inl e | Inr y \<Rightarrow>
                   Inr (if sint x < sint y then rght else largest)))
          else Inr largest)"

text \<open>
  Lines 53--58: the exchange and the recursive call. The recursion is not structural;
  its termination, and that of the two loops below, is proved in the subsection
  \<open>Termination\<close>.
\<close>

function heapfy :: "globals \<Rightarrow> array \<Rightarrow> cint \<Rightarrow> fault + array" where
  "heapfy g a i =
     (case largest_of g a i of Inl e \<Rightarrow> Inl e | Inr largest \<Rightarrow>
        if largest \<noteq> i
        then (case swap_cells a i largest of Inl e \<Rightarrow> Inl e | Inr a' \<Rightarrow> heapfy g a' largest)
        else Inr a)"
  by pat_completeness auto

text \<open>
  The same recursion with a bound on the number of nested activations: \<open>None\<close> says that
  the bound was reached before the recursion ended.
\<close>

primrec heapfy_fuel :: "nat \<Rightarrow> globals \<Rightarrow> array \<Rightarrow> cint \<Rightarrow> (fault + array) option" where
  "heapfy_fuel 0 g a i = None"
| "heapfy_fuel (Suc k) g a i =
     (case largest_of g a i of Inl e \<Rightarrow> Some (Inl e) | Inr largest \<Rightarrow>
        if largest \<noteq> i
        then (case swap_cells a i largest of Inl e \<Rightarrow> Some (Inl e)
              | Inr a' \<Rightarrow> heapfy_fuel k g a' largest)
        else Some (Inr a))"

subsection \<open>\<^verbatim>\<open>build\<close> (lines 70--78)\<close>

text \<open>The loop of lines 74--77, on the local \<^verbatim>\<open>n\<close>.\<close>

function build_loop :: "globals \<Rightarrow> array \<Rightarrow> cint \<Rightarrow> fault + array" where
  "build_loop g a n =
     (if 1 \<le> sint n
      then (case heapfy g a n of Inl e \<Rightarrow> Inl e | Inr a' \<Rightarrow> build_loop g a' (n - 1))
      else Inr a)"
  by pat_completeness auto

definition build :: "globals \<Rightarrow> array \<Rightarrow> cint \<Rightarrow> fault + globals \<times> array" where
  "build g a n =
     (let g' = g\<lparr>length_g := n, heap_size := n\<rparr> in
      case wr a 0 (- 1) of Inl e \<Rightarrow> Inl e | Inr a' \<Rightarrow>
      (case build_loop g' a' (signed_drop_bit 1 n) of Inl e \<Rightarrow> Inl e
       | Inr a'' \<Rightarrow> Inr (g', a'')))"

subsection \<open>\<^verbatim>\<open>heapsort\<close> (lines 92--106)\<close>

text \<open>The loop of lines 95--105; the local \<^verbatim>\<open>i\<close> is the constant 1.\<close>

function heapsort_loop :: "globals \<Rightarrow> array \<Rightarrow> fault + globals \<times> array" where
  "heapsort_loop g a =
     (if 1 \<le> sint (heap_size g)
      then (case swap_cells a (heap_size g) 1 of Inl e \<Rightarrow> Inl e | Inr a' \<Rightarrow>
            (let g' = g\<lparr>heap_size := heap_size g - 1\<rparr> in
             case heapfy g' a' 1 of Inl e \<Rightarrow> Inl e | Inr a'' \<Rightarrow> heapsort_loop g' a''))
      else Inr (g, a))"
  by pat_completeness auto

definition heapsort :: "globals \<Rightarrow> array \<Rightarrow> cint \<Rightarrow> fault + globals \<times> array" where
  "heapsort g a n =
     (case build g a n of Inl e \<Rightarrow> Inl e | Inr (g', a') \<Rightarrow> heapsort_loop g' a')"

subsection \<open>The vocabulary of the specification\<close>

text \<open>The value stored in slot \<open>k\<close>, as the signed number the comparisons see.\<close>

definition val :: "array \<Rightarrow> int \<Rightarrow> int" where
  "val a k = sint (the (a k))"

text \<open>The live region \<^verbatim>\<open>storage[1..n]\<close>, as the list of its values.\<close>

definition region :: "array \<Rightarrow> int \<Rightarrow> cint list" where
  "region a n = map (\<lambda>k. the (a k)) [1..n]"

text \<open>The slots \<open>0..n\<close> that a heap of \<open>n\<close> values occupies are allocated.\<close>

definition holds :: "array \<Rightarrow> int \<Rightarrow> bool" where
  "holds a n = (\<forall>k\<in>{0..n}. a k \<noteq> None)"

text \<open>The live slots \<open>1..n\<close> are allocated.\<close>

definition holds_live :: "array \<Rightarrow> int \<Rightarrow> bool" where
  "holds_live a n = (\<forall>k\<in>{1..n}. a k \<noteq> None)"

definition max_heap :: "array \<Rightarrow> int \<Rightarrow> bool" where
  "max_heap a n = (\<forall>k\<in>{2..n}. val a k \<le> val a (k div 2))"

definition ascending :: "array \<Rightarrow> int \<Rightarrow> bool" where
  "ascending a n = (\<forall>k\<in>{1..<n}. val a k \<le> val a (k + 1))"

text \<open>
  \<open>in_subtree i k\<close>: slot \<open>k\<close> lies in the subtree rooted at slot \<open>i\<close>, that is, \<open>i\<close> is
  reached from \<open>k\<close> by taking the parent \<open>k div 2\<close> zero or more times.
\<close>

function in_subtree :: "int \<Rightarrow> int \<Rightarrow> bool" where
  "in_subtree i k =
     (if k < 1 \<or> k < i then False else if k = i then True else in_subtree i (k div 2))"
  by pat_completeness auto
termination
  by (relation "measure (\<lambda>(i, k). nat k)") auto

text \<open>
  The max-heap property of the subtree rooted at \<open>i\<close>, within the live region \<open>1..n\<close>:
  every live slot whose parent lies in the subtree is at most its parent.
\<close>

definition subtree_heap :: "array \<Rightarrow> int \<Rightarrow> int \<Rightarrow> bool" where
  "subtree_heap a n i = (\<forall>k\<in>{2..n}. in_subtree i (k div 2) \<longrightarrow> val a k \<le> val a (k div 2))"

text \<open>
  The sift-down of \<^verbatim>\<open>heapfy\<close> as a relation on the integer indices: \<open>sift hs a i a'\<close>
  when the call at slot \<open>i\<close> with \<open>hs\<close> live slots turns \<open>a\<close> into \<open>a'\<close> without a fault.
  It is the bridge between the machine-level function and the properties below.
\<close>

inductive sift :: "int \<Rightarrow> array \<Rightarrow> int \<Rightarrow> array \<Rightarrow> bool" where
  sift_stop:
    "\<forall>c. (c = 2 * i \<or> c = 2 * i + 1) \<and> c \<le> hs \<longrightarrow> val a c \<le> val a i \<Longrightarrow> sift hs a i a"
| sift_go:
    "l = 2 * i \<or> l = 2 * i + 1 \<Longrightarrow> l \<le> hs \<Longrightarrow> a i = Some x \<Longrightarrow> a l = Some y \<Longrightarrow>
     sint x < sint y \<Longrightarrow>
     \<forall>c. (c = 2 * i \<or> c = 2 * i + 1) \<and> c \<le> hs \<longrightarrow> val a c \<le> sint y \<Longrightarrow>
     sift hs (a(i \<mapsto> y, l \<mapsto> x)) l a' \<Longrightarrow> sift hs a i a'"

subsection \<open>Example arrays\<close>

text \<open>
  \<open>of_list xs\<close> is the array whose slots \<open>0, 1, \<dots>\<close> hold the elements of \<open>xs\<close> and which
  has no slot beyond them; \<open>zeros n\<close> is the zero-filled array with the slots \<open>0..n\<close>.
\<close>

definition of_list :: "cint list \<Rightarrow> array" where
  "of_list xs = (\<lambda>k. if 0 \<le> k \<and> k < int (length xs) then Some (xs ! nat k) else None)"

definition zeros :: "int \<Rightarrow> array" where
  "zeros n = (\<lambda>k. if 0 \<le> k \<and> k \<le> n then Some 0 else None)"

subsection \<open>Word arithmetic of the indices\<close>

lemma sint_range32: "- (2 ^ 31) \<le> sint (i :: cint) \<and> sint i < 2 ^ 31"
  using sint_ge [of i] sint_lt [of i] by simp

lemma sint_left_raw: "sint (left i) = signed_take_bit 31 (2 * sint i)"
  by (simp add: left_def push_bit_eq_mult sint_word_ariths mult.commute)

lemma sint_right_raw: "sint (right i) = signed_take_bit 31 (sint (left i) + 1)"
  by (simp add: right_def left_def sint_word_ariths)

lemma signed_take_bit_double_high:
  assumes "2 ^ 30 \<le> (k :: int)" "k < 2 ^ 31"
  shows "signed_take_bit 31 (2 * k) = 2 * k - 2 ^ 32"
proof -
  have "(2 * k + 2 ^ 31) mod 2 ^ 32 = (2 * k + 2 ^ 31 - 2 ^ 32) mod (2 ^ 32 :: int)"
    by (simp only: minus_mod_self2)
  also have "\<dots> = 2 * k + 2 ^ 31 - 2 ^ 32"
    using assms by (intro mod_pos_pos_trivial) simp_all
  finally show ?thesis
    by (simp add: signed_take_bit_eq_take_bit_shift take_bit_eq_mod)
qed

lemma sint_left: "- (2 ^ 30) \<le> sint i \<Longrightarrow> sint i < 2 ^ 30 \<Longrightarrow> sint (left i) = 2 * sint i"
  by (simp add: sint_left_raw signed_take_bit_int_eq_self)

lemma sint_left_wrap: "2 ^ 30 \<le> sint i \<Longrightarrow> sint (left i) = 2 * sint i - 2 ^ 32"
  using sint_range32 [of i] by (simp add: sint_left_raw signed_take_bit_double_high)

lemma sint_right: "- (2 ^ 30) \<le> sint i \<Longrightarrow> sint i < 2 ^ 30 \<Longrightarrow> sint (right i) = 2 * sint i + 1"
  by (simp add: sint_right_raw sint_left signed_take_bit_int_eq_self)

lemma sint_right_wrap: "2 ^ 30 \<le> sint i \<Longrightarrow> sint (right i) = 2 * sint i + 1 - 2 ^ 32"
  using sint_range32 [of i] by (simp add: sint_right_raw sint_left_wrap signed_take_bit_int_eq_self)

lemma sint_pred: "1 \<le> sint (i :: cint) \<Longrightarrow> sint (i - 1) = sint i - 1"
  using sint_range32 [of i] by (simp add: sint_word_ariths signed_take_bit_int_eq_self)

lemma sint_half: "sint (signed_drop_bit 1 (n :: cint)) = sint n div 2"
  by (simp add: sint_signed_drop_bit_eq drop_bit_eq_div)

lemma sint_parent: "sint (parent i) = sint i div 2"
  unfolding parent_def by (rule sint_half)

lemma sint_inject: "sint (i :: cint) = sint j \<longleftrightarrow> i = j"
  by (auto dest: arg_cong [where f = "word_of_int :: int \<Rightarrow> cint"])

subsection \<open>Reads, writes and the choice of the largest slot\<close>

lemma fault_eq [simp]: "(e :: fault) = OutOfBounds"
  by (cases e) simp

lemma rd_Inr_iff: "rd a i = Inr v \<longleftrightarrow> 0 \<le> sint i \<and> a (sint i) = Some v"
  by (auto simp: rd_def split: option.splits)

lemma rd_neg: "sint i < 0 \<Longrightarrow> rd a i = Inl OutOfBounds"
  by (simp add: rd_def)

lemma swap_cells_Inr_iff:
  "swap_cells a i j = Inr a' \<longleftrightarrow>
     (\<exists>x y. 0 \<le> sint i \<and> 0 \<le> sint j \<and> a (sint i) = Some x \<and> a (sint j) = Some y \<and>
            a' = a(sint i \<mapsto> y, sint j \<mapsto> x))"
  by (auto simp: swap_cells_def rd_def wr_def split: option.splits sum.splits if_splits)

lemma largest_of_range:
  "largest_of g a i = Inr l \<Longrightarrow> l = i \<or> l = left i \<or> l = right i"
  by (auto simp: largest_of_def Let_def split: if_splits sum.splits)

lemma largest_of_overflow:
  assumes "2 ^ 30 \<le> sint i" "0 \<le> sint (heap_size g)"
  shows "largest_of g a i = Inl OutOfBounds"
proof -
  have "sint (left i) < 0"
    using assms sint_range32 [of i] by (simp add: sint_left_wrap)
  then show ?thesis
    using assms by (auto simp: largest_of_def Let_def rd_neg split: sum.splits)
qed

lemma largest_of_Inr:
  assumes "largest_of g a i = Inr l" "0 \<le> sint i" "sint i < 2 ^ 30"
  shows "sint l = sint i \<or>
         (sint l = 2 * sint i \<or> sint l = 2 * sint i + 1) \<and> sint l \<le> sint (heap_size g) \<and>
         (\<exists>x y. a (sint i) = Some x \<and> a (sint l) = Some y \<and> sint x < sint y)"
    and "\<forall>c. (c = 2 * sint i \<or> c = 2 * sint i + 1) \<and> c \<le> sint (heap_size g) \<longrightarrow>
           val a c \<le> val a (sint l)"
  using assms
  by (auto simp: largest_of_def Let_def sint_left sint_right rd_Inr_iff val_def
      split: if_splits sum.splits)


subsection \<open>Termination\<close>

text \<open>
  A recursive call of \<^verbatim>\<open>heapfy\<close> happens after both exchanged slots were read, so both
  indices are nonnegative and the child index did not wrap: it is larger than \<open>i\<close>. The
  two loops count a positive 32-bit number down.
\<close>

lemma heapfy_descends:
  assumes "largest_of g a i = Inr l" "l \<noteq> i" "swap_cells a i l = Inr a'"
  shows "sint i < sint l"
proof -
  from assms(3) have nn: "0 \<le> sint i" "0 \<le> sint l"
    by (auto simp: swap_cells_Inr_iff)
  have ne: "sint l \<noteq> sint i"
    using assms(2) by (simp add: sint_inject)
  show ?thesis
  proof (cases "sint i < 2 ^ 30")
    case True
    with largest_of_Inr(1) [OF assms(1) nn(1)] ne nn show ?thesis by auto
  next
    case False
    then have "sint (left i) < 0" "sint (right i) < 0"
      using sint_range32 [of i] by (simp_all add: sint_left_wrap sint_right_wrap)
    with largest_of_range [OF assms(1)] assms(2) nn show ?thesis by auto
  qed
qed

termination heapfy
  by (relation "measure (\<lambda>(g, a, i). nat (2 ^ 31 - sint i))")
     (use sint_range32 in \<open>auto dest!: heapfy_descends\<close>)

termination build_loop
  by (relation "measure (\<lambda>(g, a, n). nat (sint n))") (auto simp: sint_pred)

termination heapsort_loop
  by (relation "measure (\<lambda>(g, a). nat (sint (heap_size g)))") (auto simp: sint_pred)

declare heapfy.simps [simp del]

declare build_loop.simps [simp del]

declare heapsort_loop.simps [simp del]

declare in_subtree.simps [simp del]

subsection \<open>From the machine-level function to the sift relation\<close>

lemma heapfy_sift:
  "heapfy g a i = Inr a' \<Longrightarrow> 1 \<le> sint i \<Longrightarrow> 0 \<le> sint (heap_size g) \<Longrightarrow>
   sift (sint (heap_size g)) a (sint i) a'"
proof (induction g a i rule: heapfy.induct)
  case (1 g a i)
  from "1.prems"(1) obtain l where L: "largest_of g a i = Inr l"
    by (subst (asm) heapfy.simps) (auto split: sum.splits)
  have small: "sint i < 2 ^ 30"
    using L largest_of_overflow [of i g a] "1.prems"(3) by (cases "sint i < 2 ^ 30") auto
  have nn: "0 \<le> sint i"
    using "1.prems"(2) by simp
  note ch = largest_of_Inr [OF L nn small]
  show ?case
  proof (cases "l = i")
    case True
    with "1.prems"(1) L have "a' = a"
      by (subst (asm) heapfy.simps) simp
    with ch(2) True show ?thesis
      by (auto intro: sift_stop)
  next
    case False
    with "1.prems"(1) L obtain a1 where
      S: "swap_cells a i l = Inr a1" and H: "heapfy g a1 l = Inr a'"
      by (subst (asm) heapfy.simps) (auto split: sum.splits)
    from False have ne: "sint l \<noteq> sint i"
      by (simp add: sint_inject)
    with ch(1) obtain x y where
      c: "sint l = 2 * sint i \<or> sint l = 2 * sint i + 1" "sint l \<le> sint (heap_size g)"
        "a (sint i) = Some x" "a (sint l) = Some y" "sint x < sint y"
      by auto
    from S c have a1: "a1 = a(sint i \<mapsto> y, sint l \<mapsto> x)"
      by (auto simp: swap_cells_Inr_iff)
    have "1 \<le> sint l"
      using c(1) "1.prems"(2) by auto
    from "1.IH" [OF L False S H this "1.prems"(3)]
    have rec: "sift (sint (heap_size g)) (a(sint i \<mapsto> y, sint l \<mapsto> x)) (sint l) a'"
      unfolding a1 .
    have top: "\<forall>c. (c = 2 * sint i \<or> c = 2 * sint i + 1) \<and> c \<le> sint (heap_size g) \<longrightarrow>
        val a c \<le> sint y"
      using ch(2) c(4) by (simp add: val_def)
    show ?thesis
      by (rule sift_go [OF c(1) c(2) c(3) c(4) c(5) top rec])
  qed
qed

subsection \<open>Subtrees\<close>

lemma in_subtree_self: "1 \<le> i \<Longrightarrow> in_subtree i i"
  by (subst in_subtree.simps) simp

lemma in_subtree_ge: "in_subtree i k \<Longrightarrow> i \<le> k \<and> 1 \<le> k"
  by (subst (asm) in_subtree.simps) (auto split: if_splits)

lemma in_subtree_up: "in_subtree i k \<Longrightarrow> k \<noteq> i \<Longrightarrow> in_subtree i (k div 2)"
  by (subst (asm) in_subtree.simps) (auto split: if_splits)

lemma in_subtree_down: "in_subtree i (k div 2) \<Longrightarrow> in_subtree i k"
proof -
  assume h: "in_subtree i (k div 2)"
  then have "i \<le> k div 2" "1 \<le> k div 2"
    using in_subtree_ge by blast+
  then have "\<not> (k < 1 \<or> k < i)" "k \<noteq> i"
    by linarith+
  with h show ?thesis
    by (subst in_subtree.simps) simp
qed

lemma in_subtree_child:
  "in_subtree l k \<Longrightarrow> 1 \<le> i \<Longrightarrow> l = 2 * i \<or> l = 2 * i + 1 \<Longrightarrow> in_subtree i k"
proof (induction l k rule: in_subtree.induct)
  case (1 l k)
  show ?case
  proof (cases "k = l")
    case True
    have "in_subtree i (k div 2)"
      using True "1.prems" by (auto simp: in_subtree_self)
    then show ?thesis by (rule in_subtree_down)
  next
    case False
    with "1.prems"(1) have ge: "\<not> (k < 1 \<or> k < l)"
      using in_subtree_ge by force
    from "1.prems"(1) False have "in_subtree l (k div 2)"
      by (rule in_subtree_up)
    from "1.IH" [OF ge False this "1.prems"(2,3)] show ?thesis
      by (rule in_subtree_down)
  qed
qed

lemma in_subtree_split:
  "in_subtree i k \<Longrightarrow> k \<noteq> i \<Longrightarrow> in_subtree (2 * i) k \<or> in_subtree (2 * i + 1) k"
proof (induction i k rule: in_subtree.induct)
  case (1 i k)
  from "1.prems" have ge: "\<not> (k < 1 \<or> k < i)"
    using in_subtree_ge by force
  from "1.prems" have up: "in_subtree i (k div 2)"
    by (rule in_subtree_up)
  show ?case
  proof (cases "k div 2 = i")
    case True
    then have "k = 2 * i \<or> k = 2 * i + 1" by linarith
    moreover have "1 \<le> k" using ge by simp
    ultimately show ?thesis
      using in_subtree_self [of k] by auto
  next
    case False
    from "1.IH" [OF ge "1.prems"(2) up False] show ?thesis
      using in_subtree_down by blast
  qed
qed

lemma sift_dom: "sift hs a i a' \<Longrightarrow> dom a' = dom a"
proof (induction rule: sift.induct)
  case (sift_stop i hs a)
  show ?case ..
next
  case (sift_go l i hs a x y a')
  have "i \<in> dom a" "l \<in> dom a"
    using sift_go.hyps(3,4) by blast+
  then have "dom (a(i \<mapsto> y, l \<mapsto> x)) = dom a"
    by (simp add: insert_absorb)
  with sift_go.IH show ?case by (rule trans)
qed

lemma sift_frame:
  "sift hs a i a' \<Longrightarrow> 1 \<le> i \<Longrightarrow> \<not> (in_subtree i k \<and> k \<le> hs) \<Longrightarrow> a' k = a k"
proof (induction rule: sift.induct)
  case (sift_stop i hs a)
  show ?case ..
next
  case (sift_go l i hs a x y a')
  have "1 \<le> l" using sift_go.hyps(1) sift_go.prems(1) by auto
  have il: "in_subtree i i" "in_subtree i l"
    using sift_go.prems(1) sift_go.hyps(1) in_subtree_self [of i]
      in_subtree_child [OF in_subtree_self [OF \<open>1 \<le> l\<close>] sift_go.prems(1) sift_go.hyps(1)]
    by auto
  have "\<not> (in_subtree l k \<and> k \<le> hs)"
    using sift_go.prems in_subtree_child [OF _ sift_go.prems(1) sift_go.hyps(1)] by blast
  with sift_go.IH \<open>1 \<le> l\<close> have "a' k = (a(i \<mapsto> y, l \<mapsto> x)) k"
    by blast
  moreover have "k \<noteq> i" "k \<noteq> l"
    using il sift_go.prems sift_go.hyps(1,2) by auto
  ultimately show ?case by simp
qed

subsection \<open>What a sift preserves and what it establishes\<close>

lemma half_eq_iff: "k div 2 = i \<longleftrightarrow> k = 2 * i \<or> k = 2 * i + 1" for k i :: int
  by presburger

lemma val_swap:
  "val (a(i \<mapsto> y, l \<mapsto> x)) k = (if k = l then sint x else if k = i then sint y else val a k)"
  by (simp add: val_def)

lemma sift_heap:
  assumes "sift hs a i a'" "1 \<le> i"
    and "\<forall>k. k \<le> hs \<and> k div 2 = i \<longrightarrow> E k"
    and "\<forall>k. k \<le> hs \<and> E (k div 2) \<longrightarrow> E k"
    and "\<forall>k. E k \<longrightarrow> k \<le> hs"
    and "\<forall>k. E k \<and> k div 2 \<noteq> i \<longrightarrow> val a k \<le> val a (k div 2)"
    and "E i \<longrightarrow> (\<forall>k. k \<le> hs \<and> k div 2 = i \<longrightarrow> val a k \<le> val a (i div 2))"
  shows "\<forall>k. E k \<longrightarrow> val a' k \<le> val a' (k div 2)"
  using assms
proof (induction rule: sift.induct)
  case (sift_stop i hs a)
  show ?case
  proof (intro allI impI)
    fix k assume "E k"
    show "val a k \<le> val a (k div 2)"
    proof (cases "k div 2 = i")
      case True
      with \<open>E k\<close> sift_stop.prems(4) sift_stop.hyps show ?thesis
        by (auto simp: half_eq_iff)
    next
      case False
      with \<open>E k\<close> sift_stop.prems(5) show ?thesis by blast
    qed
  qed
next
  case (sift_go l i hs a x y a')
  let ?a1 = "a(i \<mapsto> y, l \<mapsto> x)"
  have li: "l div 2 = i" "i < l" "l \<noteq> i"
    using sift_go.hyps(1) sift_go.prems(1) by auto
  have vi: "val a i = sint x" and vl: "val a l = sint y"
    using sift_go.hyps(3,4) by (simp_all add: val_def)
  have El: "E l"
    using sift_go.prems(2) sift_go.hyps(2) li(1) by blast
  have p1: "1 \<le> l" using li(2) sift_go.prems(1) by simp
  have p2: "\<forall>k. k \<le> hs \<and> k div 2 = l \<longrightarrow> E k"
    using El sift_go.prems(3) by blast
  have p5: "\<forall>k. E k \<and> k div 2 \<noteq> l \<longrightarrow> val ?a1 k \<le> val ?a1 (k div 2)"
  proof (intro allI impI)
    fix k assume k: "E k \<and> k div 2 \<noteq> l"
    then have khs: "k \<le> hs" using sift_go.prems(4) by blast
    show "val ?a1 k \<le> val ?a1 (k div 2)"
    proof (cases "k div 2 = i")
      case True
      then have kc: "k = 2 * i \<or> k = 2 * i + 1" by (simp add: half_eq_iff)
      then have "k \<noteq> i" using sift_go.prems(1) by auto
      have "val a k \<le> sint y" using sift_go.hyps(6) kc khs by blast
      with True \<open>k \<noteq> i\<close> li sift_go.hyps(5) show ?thesis
        by (simp add: val_swap)
    next
      case False
      with k have old: "val a k \<le> val a (k div 2)"
        using sift_go.prems(5) by blast
      have kl: "k \<noteq> l" using False li(1) by auto
      show ?thesis
      proof (cases "k = i")
        case True
        with k sift_go.prems(6) sift_go.hyps(2) li(1) vl
        have "sint y \<le> val a (i div 2)" by metis
        moreover have "i div 2 \<noteq> i" "i div 2 \<noteq> l"
          using sift_go.prems(1) li(2) by linarith+
        ultimately show ?thesis
          using True kl by (simp add: val_swap)
      next
        case ki: False
        with kl False k old show ?thesis by (simp add: val_swap)
      qed
    qed
  qed
  have p6: "E l \<longrightarrow> (\<forall>k. k \<le> hs \<and> k div 2 = l \<longrightarrow> val ?a1 k \<le> val ?a1 (l div 2))"
  proof (intro allI impI)
    fix k assume k: "k \<le> hs \<and> k div 2 = l"
    then have "E k" using p2 by blast
    moreover have "k div 2 \<noteq> i" using k li(3) by simp
    ultimately have "val a k \<le> val a l"
      using sift_go.prems(5) k by metis
    moreover have "k \<noteq> l" "k \<noteq> i"
      using k p1 li(2) by linarith+
    ultimately show "val ?a1 k \<le> val ?a1 (l div 2)"
      using li vl by (simp add: val_swap)
  qed
  show ?case
    by (rule sift_go.IH [OF p1 p2 sift_go.prems(3) sift_go.prems(4) p5 p6])
qed

lemma length_region: "length (region a N) = nat N"
  by (simp add: region_def)

lemma region_nth: "n < nat N \<Longrightarrow> region a N ! n = the (a (1 + int n))"
  by (simp add: region_def)

lemma region_swap:
  assumes "1 \<le> i" "i \<le> N" "1 \<le> l" "l \<le> N" "a i = Some x" "a l = Some y"
  shows "mset (region (a(i \<mapsto> y, l \<mapsto> x)) N) = mset (region a N)"
proof -
  let ?I = "nat (i - 1)" and ?L = "nat (l - 1)" and ?r = "region a N"
  have b: "?I < length ?r" "?L < length ?r"
    using assms by (simp_all add: length_region)
  have "region (a(i \<mapsto> y, l \<mapsto> x)) N = ?r[?I := ?r ! ?L, ?L := ?r ! ?I]"
  proof (rule nth_equalityI)
    show "length (region (a(i \<mapsto> y, l \<mapsto> x)) N) = length (?r[?I := ?r ! ?L, ?L := ?r ! ?I])"
      by (simp add: length_region)
  next
    fix n assume "n < length (region (a(i \<mapsto> y, l \<mapsto> x)) N)"
    then have n: "n < nat N" by (simp add: length_region)
    have "n = ?I \<longleftrightarrow> 1 + int n = i" "n = ?L \<longleftrightarrow> 1 + int n = l"
      using assms by linarith+
    with n b assms show "region (a(i \<mapsto> y, l \<mapsto> x)) N ! n = ?r[?I := ?r ! ?L, ?L := ?r ! ?I] ! n"
      by (auto simp: region_nth nth_list_update length_region)
  qed
  with mset_swap [OF b(2) b(1)] show ?thesis by simp
qed

lemma sift_region:
  "sift hs a i a' \<Longrightarrow> 1 \<le> i \<Longrightarrow> hs \<le> N \<Longrightarrow> mset (region a' N) = mset (region a N)"
proof (induction rule: sift.induct)
  case (sift_stop i hs a)
  show ?case ..
next
  case (sift_go l i hs a x y a')
  have l: "1 \<le> l" "l \<le> N" "i \<le> N"
    using sift_go.hyps(1,2) sift_go.prems by auto
  from sift_go.IH [OF l(1) sift_go.prems(2)]
    region_swap [OF sift_go.prems(1) l(3) l(1) l(2) sift_go.hyps(3,4)]
  show ?case by (rule trans)
qed

subsection \<open>When \<^verbatim>\<open>heapfy\<close> completes\<close>

lemma largest_of_total:
  assumes "0 \<le> sint i" "sint i < 2 ^ 30"
    and "\<forall>k. sint i \<le> k \<and> k \<le> sint (heap_size g) \<longrightarrow> a k \<noteq> None"
  shows "\<exists>l. largest_of g a i = Inr l"
proof -
  have rd_ok: "\<exists>v. rd a j = Inr v" if "sint i \<le> sint j" "sint j \<le> sint (heap_size g)" for j
    using that assms(1,3) by (auto simp: rd_def split: option.splits)
  have lr: "sint (left i) = 2 * sint i" "sint (right i) = 2 * sint i + 1"
    using assms(1,2) by (simp_all add: sint_left sint_right)
  obtain m where
    m: "(if sint (left i) \<le> sint (heap_size g)
         then (case rd a i of Inl e \<Rightarrow> Inl e | Inr x \<Rightarrow>
               (case rd a (left i) of Inl e \<Rightarrow> Inl e | Inr y \<Rightarrow>
                  Inr (if sint x < sint y then left i else i)))
         else Inr i) = Inr m" and mr: "m = i \<or> m = left i \<and> sint (left i) \<le> sint (heap_size g)"
  proof (cases "sint (left i) \<le> sint (heap_size g)")
    case True
    then obtain x y where "rd a i = Inr x" "rd a (left i) = Inr y"
      using rd_ok [of i] rd_ok [of "left i"] lr assms(1) by auto
    with True that show ?thesis by simp
  next
    case False
    with that show ?thesis by simp
  qed
  show ?thesis
  proof (cases "sint (right i) \<le> sint (heap_size g)")
    case True
    then obtain x y where "rd a m = Inr x" "rd a (right i) = Inr y"
      using rd_ok [of m] rd_ok [of "right i"] lr assms(1) mr by auto
    with True m show ?thesis
      by (simp add: largest_of_def Let_def)
  next
    case False
    with m show ?thesis
      by (simp add: largest_of_def Let_def)
  qed
qed

lemma largest_of_stable:
  assumes "0 \<le> sint i" "sint i < 2 ^ 30"
    and "\<forall>k. sint i \<le> k \<and> k \<le> sint (heap_size g) \<longrightarrow> a k \<noteq> None"
    and "\<forall>c. (c = 2 * sint i \<or> c = 2 * sint i + 1) \<and> c \<le> sint (heap_size g) \<longrightarrow>
           val a c \<le> val a (sint i)"
  shows "largest_of g a i = Inr i"
proof -
  from largest_of_total [OF assms(1-3)] obtain l where L: "largest_of g a i = Inr l" ..
  from largest_of_Inr(1) [OF L assms(1,2)] assms(4) have "sint l = sint i"
    by (auto simp: val_def)
  with L show ?thesis by (simp add: sint_inject)
qed

lemma largest_of_above:
  assumes "0 \<le> sint i" "sint i < 2 ^ 30" "sint (heap_size g) < sint i"
  shows "largest_of g a i = Inr i"
  using assms by (simp add: largest_of_def Let_def sint_left sint_right)

lemma heapfy_total:
  "1 \<le> sint i \<Longrightarrow> sint (heap_size g) < 2 ^ 30 \<Longrightarrow> sint i < 2 ^ 30 \<Longrightarrow>
   \<forall>k. sint i \<le> k \<and> k \<le> sint (heap_size g) \<longrightarrow> a k \<noteq> None \<Longrightarrow>
   \<exists>a'. heapfy g a i = Inr a'"
proof (induction g a i rule: heapfy.induct)
  case (1 g a i)
  have nn: "0 \<le> sint i" using "1.prems"(1) by simp
  from largest_of_total [OF nn "1.prems"(3,4)] obtain l where L: "largest_of g a i = Inr l" ..
  show ?case
  proof (cases "l = i")
    case True
    with L show ?thesis by (subst heapfy.simps) simp
  next
    case False
    then have "sint l \<noteq> sint i" by (simp add: sint_inject)
    with largest_of_Inr(1) [OF L nn "1.prems"(3)] obtain x y where
      c: "sint l = 2 * sint i \<or> sint l = 2 * sint i + 1" "sint l \<le> sint (heap_size g)"
        "a (sint i) = Some x" "a (sint l) = Some y"
      by auto
    let ?a1 = "a(sint i \<mapsto> y, sint l \<mapsto> x)"
    have S: "swap_cells a i l = Inr ?a1"
      using c nn "1.prems"(1) by (auto simp: swap_cells_Inr_iff)
    have "1 \<le> sint l" "sint l < 2 ^ 30"
      using c(1,2) "1.prems"(1,2) by auto
    moreover have "\<forall>k. sint l \<le> k \<and> k \<le> sint (heap_size g) \<longrightarrow> ?a1 k \<noteq> None"
      using "1.prems"(4) c(1) nn by auto
    ultimately obtain a' where "heapfy g ?a1 l = Inr a'"
      using "1.IH" [OF L False S] "1.prems"(2) by blast
    with L False S show ?thesis by (subst heapfy.simps) simp
  qed
qed

lemma heapfy_above:
  assumes "1 \<le> sint i" "sint i < 2 ^ 30" "sint (heap_size g) < sint i"
  shows "heapfy g a i = Inr a"
  using largest_of_above [of i g a] assms by (subst heapfy.simps) simp

lemma heapfy_stable:
  assumes "1 \<le> sint i" "sint i < 2 ^ 30"
    and "\<forall>k. sint i \<le> k \<and> k \<le> sint (heap_size g) \<longrightarrow> a k \<noteq> None"
    and "\<forall>c. (c = 2 * sint i \<or> c = 2 * sint i + 1) \<and> c \<le> sint (heap_size g) \<longrightarrow>
           val a c \<le> val a (sint i)"
  shows "heapfy g a i = Inr a"
  using largest_of_stable [of i g a] assms by (subst heapfy.simps) simp

subsection \<open>The loop of \<^verbatim>\<open>build\<close>\<close>

lemma heapfy_sound:
  assumes "heapfy g a i = Inr a'" "1 \<le> sint i" "0 \<le> sint (heap_size g)"
  shows "dom a' = dom a"
    and "\<And>k. \<not> (in_subtree (sint i) k \<and> k \<le> sint (heap_size g)) \<Longrightarrow> a' k = a k"
    and "\<And>N. sint (heap_size g) \<le> N \<Longrightarrow> mset (region a' N) = mset (region a N)"
proof -
  note s = heapfy_sift [OF assms]
  show "dom a' = dom a" by (rule sift_dom [OF s])
  show "\<And>k. \<not> (in_subtree (sint i) k \<and> k \<le> sint (heap_size g)) \<Longrightarrow> a' k = a k"
    by (rule sift_frame [OF s assms(2)])
  show "\<And>N. sint (heap_size g) \<le> N \<Longrightarrow> mset (region a' N) = mset (region a N)"
    by (rule sift_region [OF s assms(2)])
qed

lemma build_loop_sound:
  "build_loop g a j = Inr a' \<Longrightarrow> 0 \<le> sint (heap_size g) \<Longrightarrow>
   \<forall>k. 2 \<le> k \<and> k \<le> sint (heap_size g) \<and> sint j < k div 2 \<longrightarrow> val a k \<le> val a (k div 2) \<Longrightarrow>
   max_heap a' (sint (heap_size g)) \<and> dom a' = dom a \<and>
   (\<forall>k. k < 1 \<or> sint (heap_size g) < k \<longrightarrow> a' k = a k) \<and>
   (\<forall>N. sint (heap_size g) \<le> N \<longrightarrow> mset (region a' N) = mset (region a N))"
proof (induction g a j rule: build_loop.induct)
  case (1 g a j)
  let ?hs = "sint (heap_size g)"
  show ?case
  proof (cases "1 \<le> sint j")
    case False
    with "1.prems"(1) have "a' = a"
      by (subst (asm) build_loop.simps) simp
    moreover have "max_heap a ?hs"
      unfolding max_heap_def
    proof
      fix k assume "k \<in> {2..?hs}"
      moreover from this have "sint j < k div 2" using False by auto
      ultimately show "val a k \<le> val a (k div 2)" using "1.prems"(3) by auto
    qed
    ultimately show ?thesis by simp
  next
    case True
    with "1.prems"(1) obtain a1 where
      H: "heapfy g a j = Inr a1" and B: "build_loop g a1 (j - 1) = Inr a'"
      by (subst (asm) build_loop.simps) (auto split: sum.splits)
    note s = heapfy_sift [OF H True "1.prems"(2)]
    note h = heapfy_sound [OF H True "1.prems"(2)]
    let ?E = "\<lambda>k. 2 \<le> k \<and> k \<le> ?hs \<and> sint j \<le> k div 2"
    have "\<forall>k. ?E k \<longrightarrow> val a1 k \<le> val a1 (k div 2)"
    proof (rule sift_heap [OF s True, where E = ?E])
      show "\<forall>k. k \<le> ?hs \<and> k div 2 = sint j \<longrightarrow> ?E k" using True by auto
      show "\<forall>k. k \<le> ?hs \<and> ?E (k div 2) \<longrightarrow> ?E k" by auto
      show "\<forall>k. ?E k \<longrightarrow> k \<le> ?hs" by simp
      show "\<forall>k. ?E k \<and> k div 2 \<noteq> sint j \<longrightarrow> val a k \<le> val a (k div 2)"
        using "1.prems"(3) by auto
      show "?E (sint j) \<longrightarrow> (\<forall>k. k \<le> ?hs \<and> k div 2 = sint j \<longrightarrow>
          val a k \<le> val a (sint j div 2))"
        using True by auto
    qed
    then have pre: "\<forall>k. 2 \<le> k \<and> k \<le> ?hs \<and> sint (j - 1) < k div 2 \<longrightarrow>
        val a1 k \<le> val a1 (k div 2)"
      using True by (auto simp: sint_pred)
    from "1.IH" [OF True H B "1.prems"(2) pre]
    have r: "max_heap a' ?hs" "dom a' = dom a1"
      "\<forall>k. k < 1 \<or> ?hs < k \<longrightarrow> a' k = a1 k"
      "\<forall>N. ?hs \<le> N \<longrightarrow> mset (region a' N) = mset (region a1 N)"
      by blast+
    have fr: "a1 k = a k" if "k < 1 \<or> ?hs < k" for k
    proof -
      have "\<not> (in_subtree (sint j) k \<and> k \<le> ?hs)"
        using that in_subtree_ge [of "sint j" k] by auto
      then show ?thesis by (rule h(2))
    qed
    show ?thesis
      using r h(1) h(3) fr by auto
  qed
qed

lemma build_loop_total:
  "sint j \<le> sint (heap_size g) \<Longrightarrow> sint (heap_size g) < 2 ^ 30 \<Longrightarrow>
   \<forall>k. 1 \<le> k \<and> k \<le> sint (heap_size g) \<longrightarrow> a k \<noteq> None \<Longrightarrow>
   \<exists>a'. build_loop g a j = Inr a'"
proof (induction g a j rule: build_loop.induct)
  case (1 g a j)
  show ?case
  proof (cases "1 \<le> sint j")
    case False
    then show ?thesis by (subst build_loop.simps) simp
  next
    case True
    have "sint j < 2 ^ 30" using "1.prems"(1,2) by simp
    moreover have "\<forall>k. sint j \<le> k \<and> k \<le> sint (heap_size g) \<longrightarrow> a k \<noteq> None"
      using "1.prems"(3) True by auto
    ultimately obtain a1 where H: "heapfy g a j = Inr a1"
      using heapfy_total [OF True "1.prems"(2)] by blast
    have hs: "0 \<le> sint (heap_size g)" using True "1.prems"(1) by simp
    have "dom a1 = dom a" by (rule heapfy_sound(1) [OF H True hs])
    then have d: "\<forall>k. 1 \<le> k \<and> k \<le> sint (heap_size g) \<longrightarrow> a1 k \<noteq> None"
      using "1.prems"(3) by (metis domIff)
    have "sint (j - 1) \<le> sint (heap_size g)"
      using True "1.prems"(1) by (simp add: sint_pred)
    from "1.IH" [OF True H this "1.prems"(2) d] obtain a' where
      "build_loop g a1 (j - 1) = Inr a'" ..
    with True H show ?thesis by (subst build_loop.simps) simp
  qed
qed

subsection \<open>The loop of \<^verbatim>\<open>heapsort\<close>\<close>

lemma max_heap_root:
  "max_heap a n \<Longrightarrow> 1 \<le> k \<Longrightarrow> k \<le> n \<Longrightarrow> val a k \<le> val a 1"
proof (induction "nat k" arbitrary: k rule: less_induct)
  case less
  show ?case
  proof (cases "k = 1")
    case True
    then show ?thesis by simp
  next
    case False
    with less.prems have k: "2 \<le> k" "k \<in> {2..n}" by auto
    then have "val a k \<le> val a (k div 2)"
      using less.prems(1) by (simp add: max_heap_def)
    moreover have "val a (k div 2) \<le> val a 1"
      using k less.prems by (intro less.hyps) auto
    ultimately show ?thesis by simp
  qed
qed

lemma set_region: "set (region a n) = (\<lambda>k. the (a k)) ` {1..n}"
  by (simp add: region_def)

lemma region_bound:
  assumes "mset (region a' n) = mset (region a n)"
    and "\<forall>k. 1 \<le> k \<and> k \<le> n \<longrightarrow> val a k \<le> b"
    and "1 \<le> k" "k \<le> n"
  shows "val a' k \<le> b"
proof -
  have "set (region a' n) = set (region a n)"
    using assms(1) by (rule mset_eq_setD)
  moreover have "the (a' k) \<in> set (region a' n)"
    using assms(3,4) by (simp add: set_region)
  ultimately obtain j where "j \<in> {1..n}" "the (a' k) = the (a j)"
    by (auto simp: set_region)
  with assms(2) show ?thesis by (simp add: val_def)
qed

lemma heapsort_loop_sound:
  "heapsort_loop g a = Inr (g', a') \<Longrightarrow> 0 \<le> sint (heap_size g) \<Longrightarrow> sint (heap_size g) \<le> N \<Longrightarrow>
   max_heap a (sint (heap_size g)) \<Longrightarrow>
   \<forall>j k. sint (heap_size g) < j \<and> j \<le> k \<and> k \<le> N \<longrightarrow> val a j \<le> val a k \<Longrightarrow>
   \<forall>j k. 1 \<le> j \<and> j \<le> sint (heap_size g) \<and> sint (heap_size g) < k \<and> k \<le> N \<longrightarrow>
     val a j \<le> val a k \<Longrightarrow>
   (\<forall>j k. 1 \<le> j \<and> j \<le> k \<and> k \<le> N \<longrightarrow> val a' j \<le> val a' k) \<and>
   heap_size g' = 0 \<and> length_g g' = length_g g \<and> dom a' = dom a \<and>
   (\<forall>k. k < 1 \<or> N < k \<longrightarrow> a' k = a k) \<and> mset (region a' N) = mset (region a N)"
proof (induction g a rule: heapsort_loop.induct)
  case (1 g a)
  let ?hs = "sint (heap_size g)"
  show ?case
  proof (cases "1 \<le> ?hs")
    case False
    with "1.prems"(1) have eq: "g' = g" "a' = a"
      by (subst (asm) heapsort_loop.simps, simp)+
    from False "1.prems"(2) have z: "?hs = 0" by simp
    then have "sint (heap_size g) = sint (0 :: cint)" by simp
    then have "heap_size g = 0" by (simp only: sint_inject)
    with eq z "1.prems"(5) show ?thesis by auto
  next
    case True
    let ?g1 = "g\<lparr>heap_size := heap_size g - 1\<rparr>"
    from "1.prems"(1) True obtain a1 a2 where
      S: "swap_cells a (heap_size g) 1 = Inr a1" and H: "heapfy ?g1 a1 1 = Inr a2"
      and L: "heapsort_loop ?g1 a2 = Inr (g', a')"
      by (subst (asm) heapsort_loop.simps) (auto simp: Let_def split: sum.splits)
    from S obtain x y where
      xy: "a ?hs = Some x" "a 1 = Some y" and a1: "a1 = a(?hs \<mapsto> y, 1 \<mapsto> x)"
      by (auto simp: swap_cells_Inr_iff)
    have hs1: "sint (heap_size ?g1) = ?hs - 1"
      using True by (simp add: sint_pred)
    have one: "1 \<le> sint (1 :: cint)" by simp
    have nn1: "0 \<le> sint (heap_size ?g1)" using True hs1 by simp
    note s = heapfy_sift [OF H one nn1]
    note h = heapfy_sound [OF H one nn1]
    have v1: "val a1 k = (if k = 1 then sint x else if k = ?hs then sint y else val a k)" for k
      unfolding a1 by (simp add: val_swap)
    have vx: "val a ?hs = sint x" and vy: "val a 1 = sint y"
      using xy by (simp_all add: val_def)
    have xeq: "sint x = sint y" if "?hs = 1"
      using xy that by simp
    have top: "val a k \<le> sint y" if "1 \<le> k" "k \<le> ?hs" for k
      using max_heap_root [OF "1.prems"(4) that] vy by simp
    \<comment> \<open>the heap over the shrunken live region\<close>
    let ?E = "\<lambda>k. 2 \<le> k \<and> k \<le> ?hs - 1"
    have "\<forall>k. ?E k \<longrightarrow> val a2 k \<le> val a2 (k div 2)"
    proof (rule sift_heap [OF s, where E = ?E])
      show "1 \<le> sint (1 :: cint)" by simp
      show "\<forall>k. k \<le> sint (heap_size ?g1) \<and> k div 2 = sint (1 :: cint) \<longrightarrow> ?E k"
        using hs1 by auto
      show "\<forall>k. k \<le> sint (heap_size ?g1) \<and> ?E (k div 2) \<longrightarrow> ?E k"
        using hs1 by auto
      show "\<forall>k. ?E k \<longrightarrow> k \<le> sint (heap_size ?g1)"
        using hs1 by auto
      show "\<forall>k. ?E k \<and> k div 2 \<noteq> sint (1 :: cint) \<longrightarrow> val a1 k \<le> val a1 (k div 2)"
      proof (intro allI impI)
        fix k assume k: "?E k \<and> k div 2 \<noteq> sint (1 :: cint)"
        then have "k \<in> {2..?hs}" "k \<noteq> 1" "k \<noteq> ?hs" "k div 2 \<noteq> 1" "k div 2 \<noteq> ?hs"
          by auto
        with "1.prems"(4) show "val a1 k \<le> val a1 (k div 2)"
          by (simp add: v1 max_heap_def)
      qed
      show "?E (sint (1 :: cint)) \<longrightarrow> (\<forall>k. k \<le> sint (heap_size ?g1) \<and> k div 2 = sint (1 :: cint) \<longrightarrow>
          val a1 k \<le> val a1 (sint (1 :: cint) div 2))"
        by simp
    qed
    then have mh: "max_heap a2 (sint (heap_size ?g1))"
      using True by (auto simp: max_heap_def sint_pred)
    \<comment> \<open>slots from the old last live slot on are those of the exchange\<close>
    have fr: "a2 k = a1 k" if "k < 1 \<or> ?hs \<le> k" for k
    proof -
      have "\<not> (in_subtree (sint (1 :: cint)) k \<and> k \<le> sint (heap_size ?g1))"
        using that hs1 in_subtree_ge [of "sint (1 :: cint)" k] by auto
      then show ?thesis by (rule h(2))
    qed
    have v2: "val a2 k = val a1 k" if "?hs \<le> k" for k
      using fr [of k] that by (simp add: val_def)
    have low: "val a2 j \<le> sint y" if "1 \<le> j" "j \<le> ?hs - 1" for j
    proof (rule region_bound [OF _ _ that])
      show "mset (region a2 (?hs - 1)) = mset (region a1 (?hs - 1))"
        using h(3) [of "?hs - 1"] hs1 by simp
      have "sint x \<le> sint y"
        using top [of ?hs] vx True by simp
      then show "\<forall>k. 1 \<le> k \<and> k \<le> ?hs - 1 \<longrightarrow> val a1 k \<le> sint y"
        using top by (auto simp: v1)
    qed
    have tail: "\<forall>j k. sint (heap_size ?g1) < j \<and> j \<le> k \<and> k \<le> N \<longrightarrow> val a2 j \<le> val a2 k"
    proof (intro allI impI)
      fix j k assume jk: "sint (heap_size ?g1) < j \<and> j \<le> k \<and> k \<le> N"
      then have b: "?hs \<le> j" "?hs \<le> k" using hs1 by auto
      show "val a2 j \<le> val a2 k"
      proof (cases "j = ?hs")
        case True
        show ?thesis
        proof (cases "k = ?hs")
          case True
          with \<open>j = ?hs\<close> show ?thesis by simp
        next
          case False
          with jk b True \<open>1 \<le> ?hs\<close> "1.prems"(6) vy have "sint y \<le> val a k"
            by (metis order_le_less order_refl)
          with True False b \<open>1 \<le> ?hs\<close> xeq show ?thesis
            by (auto simp: v2 v1)
        qed
      next
        case False
        with jk b "1.prems"(5) have "val a j \<le> val a k" by auto
        with False b jk \<open>1 \<le> ?hs\<close> show ?thesis
          by (auto simp: v2 v1)
      qed
    qed
    have cross: "\<forall>j k. 1 \<le> j \<and> j \<le> sint (heap_size ?g1) \<and> sint (heap_size ?g1) < k \<and> k \<le> N \<longrightarrow>
        val a2 j \<le> val a2 k"
    proof (intro allI impI)
      fix j k
      assume jk: "1 \<le> j \<and> j \<le> sint (heap_size ?g1) \<and> sint (heap_size ?g1) < k \<and> k \<le> N"
      then have b: "1 \<le> j" "j \<le> ?hs - 1" "?hs \<le> k" using hs1 by auto
      have "sint y \<le> val a2 k"
      proof (cases "k = ?hs")
        case True
        with b \<open>1 \<le> ?hs\<close> xeq show ?thesis by (auto simp: v2 v1)
      next
        case False
        with jk b \<open>1 \<le> ?hs\<close> "1.prems"(6) vy have "sint y \<le> val a k"
          by (metis order_le_less order_refl)
        with False b \<open>1 \<le> ?hs\<close> show ?thesis by (auto simp: v2 v1)
      qed
      with low [OF b(1,2)] show "val a2 j \<le> val a2 k" by simp
    qed
    have le: "sint (heap_size ?g1) \<le> N" using hs1 "1.prems"(3) by simp
    from "1.IH" [OF True S refl H L nn1 le mh tail cross]
    have r: "\<forall>j k. 1 \<le> j \<and> j \<le> k \<and> k \<le> N \<longrightarrow> val a' j \<le> val a' k"
      "heap_size g' = 0" "length_g g' = length_g ?g1" "dom a' = dom a2"
      "\<forall>k. k < 1 \<or> N < k \<longrightarrow> a' k = a2 k" "mset (region a' N) = mset (region a2 N)"
      by blast+
    have d: "dom a1 = dom a"
      using xy unfolding a1 by (auto simp: insert_absorb)
    have m1: "mset (region a1 N) = mset (region a N)"
      unfolding a1 using True "1.prems"(3) xy by (intro region_swap) auto
    have f1: "a1 k = a k" if "k < 1 \<or> N < k" for k
      using that True "1.prems"(3) unfolding a1 by auto
    have f2: "a2 k = a1 k" if "k < 1 \<or> N < k" for k
      using that fr [of k] "1.prems"(3) by auto
    show ?thesis
      using r h(1) h(3) [OF le] d m1 f1 f2 by auto
  qed
qed

subsection \<open>\<^verbatim>\<open>build\<close> and \<^verbatim>\<open>heapsort\<close> as a whole\<close>

lemma heapsort_loop_total:
  "sint (heap_size g) < 2 ^ 30 \<Longrightarrow>
   \<forall>k. 1 \<le> k \<and> k \<le> sint (heap_size g) \<longrightarrow> a k \<noteq> None \<Longrightarrow>
   \<exists>r. heapsort_loop g a = Inr r"
proof (induction g a rule: heapsort_loop.induct)
  case (1 g a)
  let ?hs = "sint (heap_size g)"
  show ?case
  proof (cases "1 \<le> ?hs")
    case False
    then show ?thesis by (subst heapsort_loop.simps) simp
  next
    case True
    let ?g1 = "g\<lparr>heap_size := heap_size g - 1\<rparr>"
    obtain x y where xy: "a ?hs = Some x" "a 1 = Some y"
      using "1.prems"(2) True by (metis not_Some_eq order_refl)
    let ?a1 = "a(?hs \<mapsto> y, 1 \<mapsto> x)"
    have S: "swap_cells a (heap_size g) 1 = Inr ?a1"
      using xy True by (auto simp: swap_cells_Inr_iff)
    have hs1: "sint (heap_size ?g1) = ?hs - 1"
      using True by (simp add: sint_pred)
    have one: "1 \<le> sint (1 :: cint)" by simp
    have nn1: "0 \<le> sint (heap_size ?g1)" using True hs1 by simp
    have lt1: "sint (heap_size ?g1) < 2 ^ 30" using hs1 "1.prems"(1) by simp
    have al: "\<forall>k. 1 \<le> k \<and> k \<le> sint (heap_size ?g1) \<longrightarrow> ?a1 k \<noteq> None"
      using "1.prems"(2) hs1 by auto
    then have al1: "\<forall>k. sint (1 :: cint) \<le> k \<and> k \<le> sint (heap_size ?g1) \<longrightarrow> ?a1 k \<noteq> None"
      by simp
    have lt: "sint (1 :: cint) < 2 ^ 30" by simp
    from heapfy_total [OF one lt1 lt al1] obtain a2 where H: "heapfy ?g1 ?a1 1 = Inr a2" ..
    have "dom a2 = dom ?a1" by (rule heapfy_sound(1) [OF H one nn1])
    with al have al2: "\<forall>k. 1 \<le> k \<and> k \<le> sint (heap_size ?g1) \<longrightarrow> a2 k \<noteq> None"
      by (metis domIff)
    from "1.IH" [OF True S refl H lt1 al2] obtain r where "heapsort_loop ?g1 a2 = Inr r" ..
    with True S H show ?thesis
      by (subst heapsort_loop.simps) (simp add: Let_def)
  qed
qed

lemma sint_half_Suc: "sint (signed_drop_bit (Suc 0) (n :: cint)) = sint n div 2"
  using sint_half [of n] by simp

lemma build_Inr_iff:
  "build g a n = Inr (g', a') \<longleftrightarrow>
     a 0 \<noteq> None \<and> g' = g\<lparr>length_g := n, heap_size := n\<rparr> \<and>
     build_loop (g\<lparr>length_g := n, heap_size := n\<rparr>) (a(0 \<mapsto> - 1)) (signed_drop_bit 1 n) = Inr a'"
  by (auto simp: build_def wr_def Let_def split: sum.splits option.splits)

lemma holds_iff: "holds a n \<longleftrightarrow> (\<forall>k. 0 \<le> k \<and> k \<le> n \<longrightarrow> a k \<noteq> None)"
  by (auto simp: holds_def)

lemma holds_live_iff: "holds_live a n \<longleftrightarrow> (\<forall>k. 1 \<le> k \<and> k \<le> n \<longrightarrow> a k \<noteq> None)"
  by (auto simp: holds_live_def)

lemma holds_dom: "dom a' = dom a \<Longrightarrow> holds a n \<Longrightarrow> holds a' n"
  by (auto simp: holds_iff domIff [symmetric])

lemma build_sound:
  assumes "build g a n = Inr (g', a')" "0 \<le> sint n"
  shows "max_heap a' (sint n)" "dom a' = dom a" "a' 0 = Some (- 1)"
    "\<forall>k. sint n < k \<longrightarrow> a' k = a k"
    "mset (region a' (sint n)) = mset (region a (sint n))"
    "heap_size g' = n" "length_g g' = n"
proof -
  let ?g = "g\<lparr>length_g := n, heap_size := n\<rparr>" and ?a = "a(0 \<mapsto> - 1 :: cint)"
  from assms(1) have a0: "a 0 \<noteq> None" and g': "g' = ?g"
    and B: "build_loop ?g ?a (signed_drop_bit 1 n) = Inr a'"
    by (simp_all add: build_Inr_iff)
  have hs: "sint (heap_size ?g) = sint n" by simp
  have pre: "\<forall>k. 2 \<le> k \<and> k \<le> sint (heap_size ?g) \<and> sint (signed_drop_bit 1 n) < k div 2 \<longrightarrow>
      val ?a k \<le> val ?a (k div 2)"
    by (auto simp: sint_half_Suc)
  from build_loop_sound [OF B _ pre] assms(2)
  have r: "max_heap a' (sint n)" "dom a' = dom ?a"
    "\<forall>k. k < 1 \<or> sint n < k \<longrightarrow> a' k = ?a k"
    "\<forall>N. sint n \<le> N \<longrightarrow> mset (region a' N) = mset (region ?a N)"
    by auto
  show "max_heap a' (sint n)" by (rule r(1))
  show "dom a' = dom a" using r(2) a0 by (auto simp: insert_absorb)
  show "a' 0 = Some (- 1)" using r(3) by simp
  show "\<forall>k. sint n < k \<longrightarrow> a' k = a k" using r(3) assms(2) by auto
  have "region ?a (sint n) = region a (sint n)"
    by (simp add: region_def)
  with r(4) show "mset (region a' (sint n)) = mset (region a (sint n))" by simp
  show "heap_size g' = n" "length_g g' = n" by (simp_all add: g')
qed

lemma build_total:
  assumes "0 \<le> sint n" "sint n < 2 ^ 30" "holds a (sint n)"
  shows "\<exists>r. build g a n = Inr r"
proof -
  let ?g = "g\<lparr>length_g := n, heap_size := n\<rparr>" and ?a = "a(0 \<mapsto> - 1 :: cint)"
  have "sint (signed_drop_bit 1 n) \<le> sint (heap_size ?g)"
    using assms(1) by (simp add: sint_half_Suc)
  moreover have "sint (heap_size ?g) < 2 ^ 30" using assms(2) by simp
  moreover have "\<forall>k. 1 \<le> k \<and> k \<le> sint (heap_size ?g) \<longrightarrow> ?a k \<noteq> None"
    using assms(3) by (auto simp: holds_iff)
  ultimately obtain a' where "build_loop ?g ?a (signed_drop_bit 1 n) = Inr a'"
    using build_loop_total by blast
  moreover have "a 0 \<noteq> None" using assms(1,3) by (simp add: holds_iff)
  ultimately have "build g a n = Inr (?g, a')" by (simp add: build_Inr_iff)
  then show ?thesis ..
qed

lemma heapsort_sound:
  assumes "heapsort g a n = Inr (g', a')" "0 \<le> sint n"
  shows "ascending a' (sint n)" "mset (region a' (sint n)) = mset (region a (sint n))"
    "heap_size g' = 0" "length_g g' = n" "a' 0 = Some (- 1)" "dom a' = dom a"
    "\<forall>k. sint n < k \<longrightarrow> a' k = a k"
proof -
  from assms(1) obtain g1 a1 where
    B: "build g a n = Inr (g1, a1)" and L: "heapsort_loop g1 a1 = Inr (g', a')"
    by (auto simp: heapsort_def split: sum.splits)
  note b = build_sound [OF B assms(2)]
  have hs: "sint (heap_size g1) = sint n" by (simp add: b(6))
  from heapsort_loop_sound [OF L, of "sint n"] b(1) assms(2)
  have r: "\<forall>j k. 1 \<le> j \<and> j \<le> k \<and> k \<le> sint n \<longrightarrow> val a' j \<le> val a' k"
    "heap_size g' = 0" "length_g g' = length_g g1" "dom a' = dom a1"
    "\<forall>k. k < 1 \<or> sint n < k \<longrightarrow> a' k = a1 k"
    "mset (region a' (sint n)) = mset (region a1 (sint n))"
    by (auto simp: hs)
  show "ascending a' (sint n)" using r(1) by (auto simp: ascending_def)
  show "mset (region a' (sint n)) = mset (region a (sint n))" using r(6) b(5) by simp
  show "heap_size g' = 0" by (rule r(2))
  show "length_g g' = n" using r(3) b(7) by simp
  show "a' 0 = Some (- 1)" using r(5) b(3) by simp
  show "dom a' = dom a" using r(4) b(2) by simp
  show "\<forall>k. sint n < k \<longrightarrow> a' k = a k" using r(5) b(4) by simp
qed

lemma heapsort_total:
  assumes "0 \<le> sint n" "sint n < 2 ^ 30" "holds a (sint n)"
  shows "\<exists>r. heapsort g a n = Inr r"
proof -
  from build_total [OF assms] obtain g1 a1 where B: "build g a n = Inr (g1, a1)"
    by (metis surj_pair)
  note b = build_sound [OF B assms(1)]
  have "sint (heap_size g1) < 2 ^ 30" using assms(2) b(6) by simp
  moreover have "\<forall>k. 1 \<le> k \<and> k \<le> sint (heap_size g1) \<longrightarrow> a1 k \<noteq> None"
    using assms(3) b(2) b(6) by (auto simp: holds_iff domIff [symmetric])
  ultimately obtain r where "heapsort_loop g1 a1 = Inr r"
    using heapsort_loop_total by blast
  with B show ?thesis by (simp add: heapsort_def)
qed

subsection \<open>Runs without a loop iteration\<close>

lemma build_negative:
  assumes "sint n < 0" "build g a n = Inr (g', a')"
  shows "g' = g\<lparr>length_g := n, heap_size := n\<rparr>" "a' = a(0 \<mapsto> - 1)"
proof -
  have "\<not> 1 \<le> sint (signed_drop_bit 1 n)"
    using assms(1) by (simp add: sint_half_Suc)
  then have "build_loop h b (signed_drop_bit 1 n) = Inr b" for h b
    by (subst build_loop.simps) simp
  with assms(2) show "g' = g\<lparr>length_g := n, heap_size := n\<rparr>" "a' = a(0 \<mapsto> - 1)"
    by (simp_all add: build_Inr_iff)
qed

lemma heapsort_loop_done:
  "\<not> 1 \<le> sint (heap_size g) \<Longrightarrow> heapsort_loop g a = Inr (g, a)"
  by (subst heapsort_loop.simps) simp

subsection \<open>Overflow of the child index\<close>

lemma heapfy_overflow:
  assumes "2 ^ 30 \<le> sint i" "0 \<le> sint (heap_size g)"
  shows "heapfy g a i = Inl OutOfBounds"
  using largest_of_overflow [OF assms, of a] by (subst heapfy.simps) simp

lemma heapfy_recursive_call:
  assumes "largest_of g a i = Inr l" "l \<noteq> i" "swap_cells a i l = Inr a1"
  shows "sint l = 2 * sint i \<or> sint l = 2 * sint i + 1" "sint l \<le> sint (heap_size g)"
    "0 \<le> sint i"
proof -
  from assms(3) have nn: "0 \<le> sint i" "0 \<le> sint l"
    by (auto simp: swap_cells_Inr_iff)
  have small: "sint i < 2 ^ 30"
  proof (rule ccontr)
    assume "\<not> sint i < 2 ^ 30"
    then have "sint (left i) < 0" "sint (right i) < 0"
      using sint_range32 [of i] by (simp_all add: sint_left_wrap sint_right_wrap)
    with largest_of_range [OF assms(1)] assms(2) nn show False by auto
  qed
  have "sint l \<noteq> sint i" using assms(2) by (simp add: sint_inject)
  with largest_of_Inr(1) [OF assms(1) nn(1) small]
  show "sint l = 2 * sint i \<or> sint l = 2 * sint i + 1" "sint l \<le> sint (heap_size g)"
    by auto
  show "0 \<le> sint i" by (rule nn(1))
qed

lemma heapfy_fuel_enough:
  "1 \<le> sint i \<Longrightarrow> sint (heap_size g) < sint i * 2 ^ k \<Longrightarrow>
   heapfy_fuel (Suc k) g a i = Some (heapfy g a i)"
proof (induction k arbitrary: a i)
  case 0
  have "False" if "largest_of g a i = Inr l" "l \<noteq> i" "swap_cells a i l = Inr a1" for l a1
    using heapfy_recursive_call [OF that] "0.prems" by auto
  then show ?case
    by (subst heapfy.simps) (auto split: sum.splits)
next
  case (Suc k)
  have "heapfy_fuel (Suc k) g a1 l = Some (heapfy g a1 l)"
    if r: "largest_of g a i = Inr l" "l \<noteq> i" "swap_cells a i l = Inr a1" for l a1
  proof (rule Suc.IH)
    note c = heapfy_recursive_call [OF r]
    show "1 \<le> sint l" using c(1) Suc.prems(1) by auto
    have "2 * sint i \<le> sint l"
      using c(1) by auto
    then have m: "(2 * sint i) * 2 ^ k \<le> sint l * 2 ^ k"
      by (intro mult_right_mono) simp_all
    have "sint (heap_size g) < sint i * 2 ^ Suc k" by (rule Suc.prems(2))
    also have "\<dots> = (2 * sint i) * 2 ^ k" by simp
    also note m
    finally show "sint (heap_size g) < sint l * 2 ^ k" .
  qed
  then show ?case
    by (subst heapfy.simps, subst heapfy_fuel.simps) (auto split: sum.splits)
qed

text \<open>
  The bound \<open>2^30\<close> on the number of live values is sharp: with \<open>2^30\<close> values, of which
  the last is the largest, the first call of \<^verbatim>\<open>heapfy\<close> in \<^verbatim>\<open>build\<close> moves to slot \<open>2^30\<close>,
  whose left child index wraps to \<open>-2^31\<close>.
\<close>

lemma half_big: "signed_drop_bit 1 (1073741824 :: cint) = 536870912"
  by (rule iffD1 [OF sint_inject]) (simp add: sint_half_Suc)

lemma build_overflow_example:
  "build g ((zeros 1073741824)(1073741824 \<mapsto> 1)) 1073741824 = Inl OutOfBounds"
proof -
  let ?g = "g\<lparr>length_g := 1073741824, heap_size := 1073741824\<rparr>"
  let ?a = "(zeros 1073741824)(1073741824 \<mapsto> 1, 0 \<mapsto> - 1)"
  have L: "largest_of ?g ?a 536870912 = Inr 1073741824"
    by (simp add: largest_of_def left_def right_def rd_def zeros_def)
  have S: "swap_cells ?a 536870912 1073741824 = Inr (?a(536870912 \<mapsto> 1, 1073741824 \<mapsto> 0))"
    by (simp add: swap_cells_Inr_iff zeros_def)
  have "heapfy ?g (?a(536870912 \<mapsto> 1, 1073741824 \<mapsto> 0)) 1073741824 = Inl OutOfBounds"
    by (simp add: heapfy_overflow)
  with L S have "heapfy ?g ?a 536870912 = Inl OutOfBounds"
    by (subst heapfy.simps) simp
  then have "build_loop ?g ?a 536870912 = Inl OutOfBounds"
    by (subst build_loop.simps) simp
  then show ?thesis
    by (simp add: build_def wr_def zeros_def half_big)
qed

lemma heapsort_overflow_example:
  "heapsort g ((zeros 1073741824)(1073741824 \<mapsto> 1)) 1073741824 = Inl OutOfBounds"
  by (simp add: heapsort_def build_overflow_example)

subsection \<open>Slots that a call does not depend on\<close>

lemma rd_agree: "0 \<le> sint j \<Longrightarrow> b (sint j) = a (sint j) \<Longrightarrow> rd b j = rd a j"
  by (simp add: rd_def)

lemma largest_of_agree:
  assumes "0 \<le> sint i" "sint i < 2 ^ 30"
    and "\<forall>k. sint i \<le> k \<and> k \<le> sint (heap_size g) \<longrightarrow> b k = a k"
  shows "largest_of g b i = largest_of g a i"
proof -
  have lr: "sint (left i) = 2 * sint i" "sint (right i) = 2 * sint i + 1"
    using assms(1,2) by (simp_all add: sint_left sint_right)
  have eq: "rd b j = rd a j" if "sint i \<le> sint j" "sint j \<le> sint (heap_size g)" for j
    using that assms(1,3) by (intro rd_agree) auto
  let ?m = "\<lambda>a. if sint (left i) \<le> sint (heap_size g)
         then (case rd a i of Inl e \<Rightarrow> Inl e | Inr x \<Rightarrow>
               (case rd a (left i) of Inl e \<Rightarrow> Inl e | Inr y \<Rightarrow>
                  Inr (if sint x < sint y then left i else i)))
         else Inr i"
  have m: "?m b = ?m a"
    using eq [of i] eq [of "left i"] lr assms(1) by (auto cong: sum.case_cong)
  have mr: "m = i \<or> m = left i" if "?m a = Inr m" for m
    using that by (auto split: if_splits sum.splits)
  have "(case ?m a of Inl e \<Rightarrow> Inl e | Inr largest \<Rightarrow>
          if sint (right i) \<le> sint (heap_size g)
          then (case rd b largest of Inl e \<Rightarrow> Inl e | Inr x \<Rightarrow>
                (case rd b (right i) of Inl e \<Rightarrow> Inl e | Inr y \<Rightarrow>
                   Inr (if sint x < sint y then right i else largest)))
          else Inr largest) =
        (case ?m a of Inl e \<Rightarrow> Inl e | Inr largest \<Rightarrow>
          if sint (right i) \<le> sint (heap_size g)
          then (case rd a largest of Inl e \<Rightarrow> Inl e | Inr x \<Rightarrow>
                (case rd a (right i) of Inl e \<Rightarrow> Inl e | Inr y \<Rightarrow>
                   Inr (if sint x < sint y then right i else largest)))
          else Inr largest)"
  proof (cases "?m a")
    case (Inl e)
    then show ?thesis by (simp only: sum.case)
  next
    case (Inr m)
    show ?thesis
    proof (cases "sint (right i) \<le> sint (heap_size g)")
      case True
      have "rd b m = rd a m" "rd b (right i) = rd a (right i)"
        using mr [OF Inr] True lr assms(1) by (auto intro!: eq)
      with Inr show ?thesis by (simp only: sum.case)
    next
      case False
      with Inr show ?thesis by (simp only: sum.case if_False)
    qed
  qed
  then show ?thesis
    unfolding largest_of_def Let_def m .
qed

lemma heapfy_agree:
  "heapfy g a i = Inr a' \<Longrightarrow> 1 \<le> sint i \<Longrightarrow> 0 \<le> sint (heap_size g) \<Longrightarrow>
   \<forall>k. sint i \<le> k \<and> k \<le> sint (heap_size g) \<longrightarrow> b k = a k \<Longrightarrow>
   \<exists>b'. heapfy g b i = Inr b' \<and>
     (\<forall>k. sint i \<le> k \<and> k \<le> sint (heap_size g) \<longrightarrow> b' k = a' k) \<and>
     (\<forall>k. \<not> (sint i \<le> k \<and> k \<le> sint (heap_size g)) \<longrightarrow> b' k = b k)"
proof (induction g a i arbitrary: a' b rule: heapfy.induct)
  case (1 g a i)
  let ?hs = "sint (heap_size g)"
  from "1.prems"(1) obtain l where L: "largest_of g a i = Inr l"
    by (subst (asm) heapfy.simps) (auto split: sum.splits)
  have small: "sint i < 2 ^ 30"
    using L largest_of_overflow [of i g a] "1.prems"(3) by (cases "sint i < 2 ^ 30") auto
  have nn: "0 \<le> sint i" using "1.prems"(2) by simp
  have Lb: "largest_of g b i = Inr l"
    using largest_of_agree [OF nn small "1.prems"(4)] L by simp
  show ?case
  proof (cases "l = i")
    case True
    with "1.prems"(1) L have "a' = a"
      by (subst (asm) heapfy.simps) simp
    moreover from True Lb have "heapfy g b i = Inr b"
      by (subst heapfy.simps) simp
    ultimately show ?thesis using "1.prems"(4) by auto
  next
    case False
    with "1.prems"(1) L obtain a1 where
      S: "swap_cells a i l = Inr a1" and H: "heapfy g a1 l = Inr a'"
      by (subst (asm) heapfy.simps) (auto split: sum.splits)
    note c = heapfy_recursive_call [OF L False S]
    from S obtain x y where
      xy: "a (sint i) = Some x" "a (sint l) = Some y" and a1: "a1 = a(sint i \<mapsto> y, sint l \<mapsto> x)"
      by (auto simp: swap_cells_Inr_iff)
    have il: "sint i < sint l" "1 \<le> sint l"
      using c(1) "1.prems"(2) by auto
    let ?b1 = "b(sint i \<mapsto> y, sint l \<mapsto> x)"
    have "b (sint i) = Some x" "b (sint l) = Some y"
      using xy "1.prems"(4) il c(2) by auto
    then have Sb: "swap_cells b i l = Inr ?b1"
      using il nn by (auto simp: swap_cells_Inr_iff)
    have ag: "\<forall>k. sint l \<le> k \<and> k \<le> ?hs \<longrightarrow> ?b1 k = a1 k"
      using "1.prems"(4) il unfolding a1 by auto
    from "1.IH" [OF L False S H il(2) "1.prems"(3) ag] obtain b' where
      b': "heapfy g ?b1 l = Inr b'" "\<forall>k. sint l \<le> k \<and> k \<le> ?hs \<longrightarrow> b' k = a' k"
        "\<forall>k. \<not> (sint l \<le> k \<and> k \<le> ?hs) \<longrightarrow> b' k = ?b1 k"
      by blast
    have Hb: "heapfy g b i = Inr b'"
      using Lb False Sb b'(1) by (subst heapfy.simps) simp
    have fr: "a' k = a1 k" if "k < sint l" for k
    proof -
      have "\<not> (in_subtree (sint l) k \<and> k \<le> ?hs)"
        using that in_subtree_ge [of "sint l" k] by auto
      then show ?thesis by (rule heapfy_sound(2) [OF H il(2) "1.prems"(3)])
    qed
    have "b' k = a' k" if "sint i \<le> k \<and> k \<le> ?hs" for k
    proof (cases "sint l \<le> k")
      case True
      with that b'(2) show ?thesis by blast
    next
      case False
      then have "b' k = ?b1 k" "a' k = a1 k"
        using b'(3) fr [of k] by auto
      moreover have "?b1 k = a1 k"
        using that "1.prems"(4) unfolding a1 by auto
      ultimately show ?thesis by simp
    qed
    moreover have "b' k = b k" if "\<not> (sint i \<le> k \<and> k \<le> ?hs)" for k
    proof -
      have "k \<noteq> sint i" "k \<noteq> sint l" "\<not> (sint l \<le> k \<and> k \<le> ?hs)"
        using that il c(2) by auto
      with b'(3) show ?thesis by auto
    qed
    ultimately show ?thesis using Hb by blast
  qed
qed

subsection \<open>The subtree below a sifted slot\<close>

lemma heapfy_subtree:
  assumes "heapfy g a i = Inr a'" "1 \<le> sint i" "0 \<le> sint (heap_size g)"
    and "subtree_heap a (sint (heap_size g)) (2 * sint i)"
    and "subtree_heap a (sint (heap_size g)) (2 * sint i + 1)"
  shows "subtree_heap a' (sint (heap_size g)) (sint i)"
proof -
  let ?hs = "sint (heap_size g)"
  let ?E = "\<lambda>k. 2 \<le> k \<and> k \<le> ?hs \<and> in_subtree (sint i) (k div 2)"
  note s = heapfy_sift [OF assms(1-3)]
  have "\<forall>k. ?E k \<longrightarrow> val a' k \<le> val a' (k div 2)"
  proof (rule sift_heap [OF s assms(2), where E = ?E])
    show "\<forall>k. k \<le> ?hs \<and> k div 2 = sint i \<longrightarrow> ?E k"
      using assms(2) by (auto simp: in_subtree_self)
    show "\<forall>k. k \<le> ?hs \<and> ?E (k div 2) \<longrightarrow> ?E k"
      by (auto intro: in_subtree_down)
    show "\<forall>k. ?E k \<longrightarrow> k \<le> ?hs" by simp
    show "\<forall>k. ?E k \<and> k div 2 \<noteq> sint i \<longrightarrow> val a k \<le> val a (k div 2)"
    proof (intro allI impI)
      fix k assume k: "?E k \<and> k div 2 \<noteq> sint i"
      then have "in_subtree (2 * sint i) (k div 2) \<or> in_subtree (2 * sint i + 1) (k div 2)"
        by (intro in_subtree_split) auto
      moreover have "k \<in> {2..?hs}" using k by simp
      ultimately show "val a k \<le> val a (k div 2)"
        using assms(4,5) unfolding subtree_heap_def by blast
    qed
    show "?E (sint i) \<longrightarrow> (\<forall>k. k \<le> ?hs \<and> k div 2 = sint i \<longrightarrow> val a k \<le> val a (sint i div 2))"
      using assms(2) in_subtree_ge [of "sint i" "sint i div 2"] by auto
  qed
  then show ?thesis by (simp add: subtree_heap_def)
qed

subsection \<open>\<^verbatim>\<open>build\<close> on an array that is a heap already\<close>

lemma build_loop_stable:
  "max_heap a (sint (heap_size g)) \<Longrightarrow> 2 * sint j \<le> sint (heap_size g) \<Longrightarrow>
   \<forall>k. 1 \<le> k \<and> k \<le> sint (heap_size g) \<longrightarrow> a k \<noteq> None \<Longrightarrow>
   build_loop g a j = Inr a"
proof (induction g a j rule: build_loop.induct)
  case (1 g a j)
  let ?hs = "sint (heap_size g)"
  show ?case
  proof (cases "1 \<le> sint j")
    case False
    then show ?thesis by (subst build_loop.simps) simp
  next
    case True
    have "?hs < 2 ^ 31" using sint_range32 [of "heap_size g"] by simp
    with "1.prems"(2) have small: "sint j < 2 ^ 30" by simp
    have al: "\<forall>k. sint j \<le> k \<and> k \<le> ?hs \<longrightarrow> a k \<noteq> None"
      using "1.prems"(3) True by auto
    have ch: "\<forall>c. (c = 2 * sint j \<or> c = 2 * sint j + 1) \<and> c \<le> ?hs \<longrightarrow> val a c \<le> val a (sint j)"
    proof (intro allI impI)
      fix c assume c: "(c = 2 * sint j \<or> c = 2 * sint j + 1) \<and> c \<le> ?hs"
      then have "c \<in> {2..?hs}" "c div 2 = sint j"
        using True by auto
      with "1.prems"(1) show "val a c \<le> val a (sint j)"
        unfolding max_heap_def by metis
    qed
    have H: "heapfy g a j = Inr a"
      by (rule heapfy_stable [OF True small al ch])
    have "2 * sint (j - 1) \<le> ?hs"
      using True "1.prems"(2) by (simp add: sint_pred)
    from "1.IH" [OF True H "1.prems"(1) this "1.prems"(3)]
    have "build_loop g a (j - 1) = Inr a" .
    with True H show ?thesis by (subst build_loop.simps) simp
  qed
qed

subsection \<open>Running the model on concrete arrays\<close>

lemma holds_of_list: "n < int (length xs) \<Longrightarrow> holds (of_list xs) n"
  by (simp add: holds_iff of_list_def)

lemmas run_simps =
  heapsort_def build_def heapsort_loop.simps build_loop.simps heapfy.simps largest_of_def
  swap_cells_def rd_def wr_def left_def right_def of_list_def Let_def

section \<open>The claims\<close>

text \<open>
  C1. For every nonnegative \<open>n\<close> and every array that holds \<open>n\<close> values in the slots
  \<open>1..n\<close>, after \<^verbatim>\<open>heapsort(a, n)\<close> completes the live region is in non-decreasing order:
  \<open>a[k] \<le> a[k + 1]\<close> for every \<open>1 \<le> k < n\<close> (and the slots \<open>0..n\<close> are still allocated).
  The call completes whenever \<open>n < 2^30\<close>; from \<open>2^30\<close> on, \<^verbatim>\<open>i << 1\<close> can overflow and the
  call can stop at an out-of-bounds access, and then there is no final array.
\<close>

theorem heapsort_ascending:
  assumes "0 \<le> sint n" "holds a (sint n)"
  shows "(sint n < 2 ^ 30 \<longrightarrow> (\<exists>g' a'. heapsort g a n = Inr (g', a'))) \<and>
         (\<forall>g' a'. heapsort g a n = Inr (g', a') \<longrightarrow>
            holds a' (sint n) \<and> ascending a' (sint n))"
  using heapsort_total [OF assms(1) _ assms(2), of g] heapsort_sound(1,6) [OF _ assms(1)]
    holds_dom [OF _ assms(2)]
  by auto

theorem heapsort_ascending_witness:
  "0 \<le> sint (5 :: cint) \<and> sint (5 :: cint) < 2 ^ 30 \<and>
   holds (of_list [0, 5, 4, 3, 2, 1]) (sint (5 :: cint)) \<and>
   (\<exists>g' a'. heapsort \<lparr>length_g = 0, heap_size = 0\<rparr> (of_list [0, 5, 4, 3, 2, 1]) 5 = Inr (g', a') \<and>
      ascending a' (sint (5 :: cint)) \<and> region a' 5 = [1, 2, 3, 4, 5])"
proof -
  have h: "0 \<le> sint (5 :: cint)" "holds (of_list [0, 5, 4, 3, 2, 1]) (sint (5 :: cint))"
    by (simp_all add: holds_of_list)
  have e: "heapsort \<lparr>length_g = 0, heap_size = 0\<rparr> (of_list [0, 5, 4, 3, 2, 1]) 5 = Inr (g', a') \<Longrightarrow>
      region a' 5 = [1, 2, 3, 4, 5]" for g' a'
    by (auto simp: run_simps region_def upto_rec1)
  show ?thesis
    using h e heapsort_ascending [OF h, of "\<lparr>length_g = 0, heap_size = 0\<rparr>"] by auto
qed

text \<open>
  C2. For every nonnegative \<open>n\<close> and every array that holds \<open>n\<close> values in the slots
  \<open>1..n\<close>, the multiset of the values in the slots \<open>1..n\<close> after \<^verbatim>\<open>heapsort(a, n)\<close> equals the
  multiset of the values there before the call: the call permutes the live region, and it
  leaves every slot above \<open>n\<close> as it was. The call completes whenever \<open>n < 2^30\<close>; from
  \<open>2^30\<close> on it can stop at an out-of-bounds access, and then there is no final array.
\<close>

theorem heapsort_permutes:
  assumes "0 \<le> sint n" "holds a (sint n)"
  shows "(sint n < 2 ^ 30 \<longrightarrow> (\<exists>g' a'. heapsort g a n = Inr (g', a'))) \<and>
         (\<forall>g' a'. heapsort g a n = Inr (g', a') \<longrightarrow>
            holds a' (sint n) \<and> mset (region a' (sint n)) = mset (region a (sint n)) \<and>
            (\<forall>k. sint n < k \<longrightarrow> a' k = a k))"
  using heapsort_total [OF assms(1) _ assms(2), of g] heapsort_sound(2,6,7) [OF _ assms(1)]
    holds_dom [OF _ assms(2)]
  by auto

theorem heapsort_permutes_witness:
  "0 \<le> sint (5 :: cint) \<and> sint (5 :: cint) < 2 ^ 30 \<and>
   holds (of_list [0, 4, 4, 4, 2, 2]) (sint (5 :: cint)) \<and>
   (\<exists>g' a'. heapsort \<lparr>length_g = 0, heap_size = 0\<rparr> (of_list [0, 4, 4, 4, 2, 2]) 5 = Inr (g', a') \<and>
      mset (region a' (sint (5 :: cint))) = mset (region (of_list [0, 4, 4, 4, 2, 2]) (sint (5 :: cint))) \<and>
      region a' 5 = [2, 2, 4, 4, 4])"
proof -
  have h: "0 \<le> sint (5 :: cint)" "holds (of_list [0, 4, 4, 4, 2, 2]) (sint (5 :: cint))"
    by (simp_all add: holds_of_list)
  have e: "heapsort \<lparr>length_g = 0, heap_size = 0\<rparr> (of_list [0, 4, 4, 4, 2, 2]) 5 = Inr (g', a') \<Longrightarrow>
      region a' 5 = [2, 2, 4, 4, 4]" for g' a'
    by (auto simp: run_simps region_def upto_rec1)
  show ?thesis
    using h e heapsort_permutes [OF h, of "\<lparr>length_g = 0, heap_size = 0\<rparr>"] by auto
qed

text \<open>
  C3. For every nonnegative \<open>n\<close> and every array that holds \<open>n\<close> values in the slots
  \<open>1..n\<close> (with the sentinel slot, \<open>0..n\<close>), after \<^verbatim>\<open>build(a, n)\<close> completes the max-heap
  property holds over the whole live region: \<open>a[k / 2] \<ge> a[k]\<close> for every \<open>k\<close> in \<open>2..n\<close>.
  The call completes whenever \<open>n < 2^30\<close>; from \<open>2^30\<close> on, \<^verbatim>\<open>i << 1\<close> can overflow and the
  call can stop at an out-of-bounds access, and then there is no final array.
\<close>

theorem build_max_heap:
  assumes "0 \<le> sint n" "holds a (sint n)"
  shows "(sint n < 2 ^ 30 \<longrightarrow> (\<exists>g' a'. build g a n = Inr (g', a'))) \<and>
         (\<forall>g' a'. build g a n = Inr (g', a') \<longrightarrow>
            holds a' (sint n) \<and> max_heap a' (sint n))"
  using build_total [OF assms(1) _ assms(2), of g] build_sound(1,2) [OF _ assms(1)]
    holds_dom [OF _ assms(2)]
  by auto

theorem build_max_heap_witness:
  "0 \<le> sint (6 :: cint) \<and> sint (6 :: cint) < 2 ^ 30 \<and>
   holds (of_list [0, 5, 3, 17, 10, 84, 19]) (sint (6 :: cint)) \<and>
   (\<exists>g' a'. build \<lparr>length_g = 0, heap_size = 0\<rparr> (of_list [0, 5, 3, 17, 10, 84, 19]) 6 = Inr (g', a') \<and>
      max_heap a' (sint (6 :: cint)) \<and> a' 1 = Some 84)"
proof -
  have h: "0 \<le> sint (6 :: cint)" "holds (of_list [0, 5, 3, 17, 10, 84, 19]) (sint (6 :: cint))"
    by (simp_all add: holds_of_list)
  have e: "build \<lparr>length_g = 0, heap_size = 0\<rparr> (of_list [0, 5, 3, 17, 10, 84, 19]) 6 = Inr (g', a') \<Longrightarrow>
      a' 1 = Some 84" for g' a'
    by (auto simp: run_simps)
  show ?thesis
    using h e build_max_heap [OF h, of "\<lparr>length_g = 0, heap_size = 0\<rparr>"] by auto
qed

text \<open>
  C4. \<^verbatim>\<open>build\<close> is idempotent: for every nonnegative \<open>n\<close> and every array with the slots
  \<open>0..n\<close>, a second \<^verbatim>\<open>build(a, n)\<close> right after a first one that returned gives exactly the
  state of the first: the same array and the same two globals. The first call returns
  whenever \<open>n < 2^30\<close>.
\<close>

theorem build_idempotent:
  assumes "0 \<le> sint n" "holds a (sint n)"
  shows "(sint n < 2 ^ 30 \<longrightarrow> (\<exists>g1 a1. build g a n = Inr (g1, a1))) \<and>
         (\<forall>g1 a1. build g a n = Inr (g1, a1) \<longrightarrow> build g1 a1 n = Inr (g1, a1))"
proof (intro conjI allI impI)
  assume "sint n < 2 ^ 30"
  with build_total [OF assms(1) _ assms(2), of g] show "\<exists>g1 a1. build g a n = Inr (g1, a1)"
    by auto
next
  fix g1 a1 assume B: "build g a n = Inr (g1, a1)"
  note b = build_sound [OF B assms(1)]
  have g1: "g1\<lparr>length_g := n, heap_size := n\<rparr> = g1"
    using b(6,7) by simp
  have a1: "a1(0 \<mapsto> - 1) = a1"
    using b(3) by (simp add: fun_upd_idem)
  have al: "\<forall>k. 1 \<le> k \<and> k \<le> sint (heap_size g1) \<longrightarrow> a1 k \<noteq> None"
    using assms(2) b(2) b(6) by (auto simp: holds_iff domIff [symmetric])
  have "build_loop g1 a1 (signed_drop_bit 1 n) = Inr a1"
  proof (rule build_loop_stable [OF _ _ al])
    show "max_heap a1 (sint (heap_size g1))" using b(1) b(6) by simp
    show "2 * sint (signed_drop_bit 1 n) \<le> sint (heap_size g1)"
      using b(6) by (simp add: sint_half_Suc)
  qed
  with b(3) show "build g1 a1 n = Inr (g1, a1)"
    by (simp add: build_Inr_iff g1 a1)
qed

theorem build_idempotent_witness:
  "0 \<le> sint (6 :: cint) \<and> sint (6 :: cint) < 2 ^ 30 \<and>
   holds (of_list [0, 5, 3, 17, 10, 84, 19]) (sint (6 :: cint)) \<and>
   (\<exists>g1 a1. build \<lparr>length_g = 0, heap_size = 0\<rparr> (of_list [0, 5, 3, 17, 10, 84, 19]) 6 = Inr (g1, a1) \<and>
      build g1 a1 6 = Inr (g1, a1) \<and> region a1 6 = [84, 10, 19, 5, 3, 17])"
proof -
  have h: "0 \<le> sint (6 :: cint)" "holds (of_list [0, 5, 3, 17, 10, 84, 19]) (sint (6 :: cint))"
    by (simp_all add: holds_of_list)
  have e: "build \<lparr>length_g = 0, heap_size = 0\<rparr> (of_list [0, 5, 3, 17, 10, 84, 19]) 6 = Inr (g1, a1) \<Longrightarrow>
      region a1 6 = [84, 10, 19, 5, 3, 17]" for g1 a1
    by (auto simp: run_simps region_def upto_rec1)
  show ?thesis
    using h e build_idempotent [OF h, of "\<lparr>length_g = 0, heap_size = 0\<rparr>"] by auto
qed

text \<open>
  C5. For every array, every \<^verbatim>\<open>heap_size\<close> and every index \<open>i\<close> with
  \<open>1 \<le> i \<le> heap_size\<close>: if the subtrees rooted at \<open>2 * i\<close> and \<open>2 * i + 1\<close> satisfy the
  max-heap property within the live region, then after \<^verbatim>\<open>heapfy(a, i)\<close> the whole subtree
  rooted at \<open>i\<close> satisfies it. The call returns whenever \<open>heap_size < 2^30\<close> and the live
  slots are allocated.
\<close>

theorem heapfy_restores_subtree:
  assumes "1 \<le> sint i" "sint i \<le> sint (heap_size g)"
    and "subtree_heap a (sint (heap_size g)) (2 * sint i)"
    and "subtree_heap a (sint (heap_size g)) (2 * sint i + 1)"
  shows "(sint (heap_size g) < 2 ^ 30 \<and> holds_live a (sint (heap_size g)) \<longrightarrow>
            (\<exists>a'. heapfy g a i = Inr a')) \<and>
         (\<forall>a'. heapfy g a i = Inr a' \<longrightarrow> subtree_heap a' (sint (heap_size g)) (sint i))"
proof (intro conjI allI impI)
  assume "sint (heap_size g) < 2 ^ 30 \<and> holds_live a (sint (heap_size g))"
  then have h: "sint (heap_size g) < 2 ^ 30 \<and> (\<forall>k. 1 \<le> k \<and> k \<le> sint (heap_size g) \<longrightarrow> a k \<noteq> None)"
    by (simp add: holds_live_iff)
  then have "\<forall>k. sint i \<le> k \<and> k \<le> sint (heap_size g) \<longrightarrow> a k \<noteq> None"
    using assms(1) by auto
  with h show "\<exists>a'. heapfy g a i = Inr a'"
    using assms(1,2) by (intro heapfy_total) auto
next
  fix a' assume "heapfy g a i = Inr a'"
  moreover have "0 \<le> sint (heap_size g)" using assms(1,2) by simp
  ultimately show "subtree_heap a' (sint (heap_size g)) (sint i)"
    using assms(1,3,4) by (intro heapfy_subtree)
qed

theorem heapfy_restores_subtree_witness:
  "1 \<le> sint (1 :: cint) \<and> sint (1 :: cint) \<le> sint (heap_size \<lparr>length_g = 7, heap_size = 7\<rparr>) \<and>
   subtree_heap (of_list [- 1, 1, 9, 8, 4, 5, 6, 7]) (sint (heap_size \<lparr>length_g = 7, heap_size = 7\<rparr>))
     (2 * sint (1 :: cint)) \<and>
   subtree_heap (of_list [- 1, 1, 9, 8, 4, 5, 6, 7]) (sint (heap_size \<lparr>length_g = 7, heap_size = 7\<rparr>))
     (2 * sint (1 :: cint) + 1) \<and>
   (\<exists>a'. heapfy \<lparr>length_g = 7, heap_size = 7\<rparr> (of_list [- 1, 1, 9, 8, 4, 5, 6, 7]) 1 = Inr a' \<and>
      subtree_heap a' (sint (heap_size \<lparr>length_g = 7, heap_size = 7\<rparr>)) (sint (1 :: cint)) \<and>
      region a' 7 = [9, 5, 8, 4, 1, 6, 7])"
proof -
  let ?g = "\<lparr>length_g = 7, heap_size = 7 :: cint\<rparr>" and ?a = "of_list [- 1, 1, 9, 8, 4, 5, 6, 7]"
  have k: "k = 2 \<or> k = 3 \<or> k = 4 \<or> k = 5 \<or> k = 6 \<or> k = 7" if "k \<in> {2..7}" for k :: int
    using that by auto
  have h: "1 \<le> sint (1 :: cint)" "sint (1 :: cint) \<le> sint (heap_size ?g)"
    "subtree_heap ?a (sint (heap_size ?g)) (2 * sint (1 :: cint))"
    "subtree_heap ?a (sint (heap_size ?g)) (2 * sint (1 :: cint) + 1)"
    by (auto simp: subtree_heap_def val_def of_list_def dest!: k dest: in_subtree_ge)
  have al: "sint (heap_size ?g) < 2 ^ 30 \<and> holds_live ?a (sint (heap_size ?g))"
    by (simp add: holds_live_iff of_list_def)
  have e: "heapfy ?g ?a 1 = Inr a' \<Longrightarrow> region a' 7 = [9, 5, 8, 4, 1, 6, 7]" for a'
    by (auto simp: run_simps region_def upto_rec1)
  note t = heapfy_restores_subtree [OF h]
  from t al obtain a' where r: "heapfy ?g ?a 1 = Inr a'" by blast
  with t e have "subtree_heap a' (sint (heap_size ?g)) (sint (1 :: cint))" "region a' 7 = [9, 5, 8, 4, 1, 6, 7]"
    by blast+
  with r h show ?thesis by blast
qed

text \<open>
  C6 as stated says that under \<open>1 \<le> i \<le> liveCount\<close> the operation neither reads nor
  writes outside \<open>[1, liveCount]\<close>. With \<open>2^30\<close> live values in a zero-filled array whose
  slots \<open>0..2^30\<close> are all allocated, the call at \<open>i = 2^30\<close> computes the left child index
  \<open>-2^31\<close> and reads that slot, outside the live region and outside the array.
\<close>

theorem heapfy_local_counterexample:
  "1 \<le> sint (1073741824 :: cint) \<and>
   sint (1073741824 :: cint) \<le> sint (heap_size \<lparr>length_g = 1073741824, heap_size = 1073741824\<rparr>) \<and>
   holds (zeros 1073741824) (sint (heap_size \<lparr>length_g = 1073741824, heap_size = 1073741824\<rparr>)) \<and>
   sint (left 1073741824) = - 2147483648 \<and>
   rd (zeros 1073741824) 1073741824 = Inr 0 \<and>
   rd (zeros 1073741824) (left 1073741824) = Inl OutOfBounds \<and>
   heapfy \<lparr>length_g = 1073741824, heap_size = 1073741824\<rparr> (zeros 1073741824) 1073741824 =
     Inl OutOfBounds"
  by (simp add: heapfy_overflow holds_iff zeros_def rd_def left_def)

text \<open>
  C6, amended. For every index \<open>i\<close> with \<open>1 \<le> i \<le> heap_size\<close>: when \<^verbatim>\<open>heapfy(a, i)\<close>
  returns, the allocation is as before and every slot that is not a live descendant of
  \<open>i\<close> (in particular every slot outside the subtree rooted at \<open>i\<close> and every slot outside
  \<open>1..heap_size\<close>) holds what it held before. The call depends on the slots
  \<open>1..heap_size\<close> only: on any array \<open>b\<close> that agrees with \<open>a\<close> there, whatever \<open>b\<close> holds
  elsewhere and whether or not anything else is allocated in \<open>b\<close>, it returns the same
  live region and leaves the rest of \<open>b\<close> as it was; so it neither reads nor writes
  outside \<open>1..heap_size\<close>. It returns whenever \<open>heap_size < 2^30\<close> and the live slots are
  allocated; for \<open>heap_size \<ge> 2^30\<close> the child index can wrap to a negative number, and
  the call then stops at a read outside the live region.
\<close>

theorem heapfy_local:
  assumes "1 \<le> sint i" "sint i \<le> sint (heap_size g)"
  shows "(sint (heap_size g) < 2 ^ 30 \<and> holds_live a (sint (heap_size g)) \<longrightarrow>
            (\<exists>a'. heapfy g a i = Inr a')) \<and>
         (\<forall>a'. heapfy g a i = Inr a' \<longrightarrow>
            dom a' = dom a \<and>
            (\<forall>k. \<not> (in_subtree (sint i) k \<and> k \<le> sint (heap_size g)) \<longrightarrow> a' k = a k) \<and>
            (\<forall>b. (\<forall>k. 1 \<le> k \<and> k \<le> sint (heap_size g) \<longrightarrow> b k = a k) \<longrightarrow>
               (\<exists>b'. heapfy g b i = Inr b' \<and>
                  (\<forall>k. 1 \<le> k \<and> k \<le> sint (heap_size g) \<longrightarrow> b' k = a' k) \<and>
                  (\<forall>k. \<not> (1 \<le> k \<and> k \<le> sint (heap_size g)) \<longrightarrow> b' k = b k))))"
proof (intro conjI allI impI)
  assume "sint (heap_size g) < 2 ^ 30 \<and> holds_live a (sint (heap_size g))"
  then have h: "sint (heap_size g) < 2 ^ 30 \<and> (\<forall>k. 1 \<le> k \<and> k \<le> sint (heap_size g) \<longrightarrow> a k \<noteq> None)"
    by (simp add: holds_live_iff)
  then have "\<forall>k. sint i \<le> k \<and> k \<le> sint (heap_size g) \<longrightarrow> a k \<noteq> None"
    using assms(1) by auto
  with h show "\<exists>a'. heapfy g a i = Inr a'"
    using assms by (intro heapfy_total) auto
next
  fix a' assume H: "heapfy g a i = Inr a'"
  have nn: "0 \<le> sint (heap_size g)" using assms by simp
  note s = heapfy_sound [OF H assms(1) nn]
  show "dom a' = dom a" by (rule s(1))
  show "a' k = a k" if "\<not> (in_subtree (sint i) k \<and> k \<le> sint (heap_size g))" for k
    using that by (rule s(2))
  fix b assume b: "\<forall>k. 1 \<le> k \<and> k \<le> sint (heap_size g) \<longrightarrow> b k = a k"
  then have "\<forall>k. sint i \<le> k \<and> k \<le> sint (heap_size g) \<longrightarrow> b k = a k"
    using assms(1) by auto
  from heapfy_agree [OF H assms(1) nn this] obtain b' where
    b': "heapfy g b i = Inr b'"
      "\<forall>k. sint i \<le> k \<and> k \<le> sint (heap_size g) \<longrightarrow> b' k = a' k"
      "\<forall>k. \<not> (sint i \<le> k \<and> k \<le> sint (heap_size g)) \<longrightarrow> b' k = b k"
    by blast
  have "b' k = a' k" if k: "1 \<le> k \<and> k \<le> sint (heap_size g)" for k
  proof (cases "sint i \<le> k")
    case True
    with k b'(2) show ?thesis by blast
  next
    case False
    then have "\<not> (in_subtree (sint i) k \<and> k \<le> sint (heap_size g))"
      using in_subtree_ge [of "sint i" k] by auto
    then have "a' k = a k" by (rule s(2))
    moreover have "b' k = b k" using False b'(3) by auto
    ultimately show ?thesis using b k by simp
  qed
  moreover have "b' k = b k" if "\<not> (1 \<le> k \<and> k \<le> sint (heap_size g))" for k
    using that assms(1) b'(3) by auto
  ultimately show "\<exists>b'. heapfy g b i = Inr b' \<and>
      (\<forall>k. 1 \<le> k \<and> k \<le> sint (heap_size g) \<longrightarrow> b' k = a' k) \<and>
      (\<forall>k. \<not> (1 \<le> k \<and> k \<le> sint (heap_size g)) \<longrightarrow> b' k = b k)"
    using b'(1) by blast
qed

theorem heapfy_local_witness:
  "1 \<le> sint (2 :: cint) \<and> sint (2 :: cint) \<le> sint (heap_size \<lparr>length_g = 5, heap_size = 5\<rparr>) \<and>
   sint (heap_size \<lparr>length_g = 5, heap_size = 5\<rparr>) < 2 ^ 30 \<and>
   holds_live (of_list [- 1, 6, 1, 5, 2, 3, 9]) (sint (heap_size \<lparr>length_g = 5, heap_size = 5\<rparr>)) \<and>
   (\<exists>a'. heapfy \<lparr>length_g = 5, heap_size = 5\<rparr> (of_list [- 1, 6, 1, 5, 2, 3, 9]) 2 = Inr a' \<and>
      dom a' = dom (of_list [- 1, 6, 1, 5, 2, 3, 9]) \<and>
      a' 0 = Some (- 1) \<and> a' 1 = Some 6 \<and> a' 3 = Some 5 \<and> a' 6 = Some 9 \<and>
      a' 2 = Some 3 \<and> a' 4 = Some 2 \<and> a' 5 = Some 1) \<and>
   (\<exists>b'. heapfy \<lparr>length_g = 5, heap_size = 5\<rparr> (of_list [- 1, 6, 1, 5, 2, 3, 9] |` {1..5}) 2 = Inr b' \<and>
      b' 0 = None \<and> b' 6 = None \<and> b' 2 = Some 3 \<and> b' 4 = Some 2 \<and> b' 5 = Some 1)"
proof -
  let ?g = "\<lparr>length_g = 5, heap_size = 5 :: cint\<rparr>" and ?a = "of_list [- 1, 6, 1, 5, 2, 3, 9]"
  have h: "1 \<le> sint (2 :: cint)" "sint (2 :: cint) \<le> sint (heap_size ?g)"
    by simp_all
  have al: "sint (heap_size ?g) < 2 ^ 30 \<and> holds_live ?a (sint (heap_size ?g))"
    by (simp add: holds_live_iff of_list_def)
  have e: "heapfy ?g ?a 2 = Inr a' \<Longrightarrow> a' 2 = Some 3 \<and> a' 4 = Some 2 \<and> a' 5 = Some 1" for a'
    by (auto simp: run_simps)
  have ns: "\<not> (in_subtree (sint (2 :: cint)) k \<and> k \<le> sint (heap_size ?g))"
    if "k = 0 \<or> k = 1 \<or> k = 3 \<or> k = 6" for k
  proof -
    have "\<not> in_subtree 2 3"
      using in_subtree_up [of 2 3] in_subtree_ge [of 2 1] by auto
    with that show ?thesis
      by (auto dest: in_subtree_ge)
  qed
  have v: "?a 0 = Some (- 1)" "?a 1 = Some 6" "?a 3 = Some 5" "?a 6 = Some 9"
    by (simp_all add: of_list_def)
  note t = heapfy_local [OF h, of ?a]
  from t al obtain a' where r: "heapfy ?g ?a 2 = Inr a'" by blast
  with t have d: "dom a' = dom ?a"
    and f: "\<forall>k. \<not> (in_subtree (sint (2 :: cint)) k \<and> k \<le> sint (heap_size ?g)) \<longrightarrow> a' k = ?a k"
    by blast+
  have "a' 0 = ?a 0" "a' 1 = ?a 1" "a' 3 = ?a 3" "a' 6 = ?a 6"
    by (rule f [rule_format, OF ns], simp)+
  with v have "a' 0 = Some (- 1)" "a' 1 = Some 6" "a' 3 = Some 5" "a' 6 = Some 9"
    by simp_all
  with r d e [OF r] have "\<exists>a'. heapfy ?g ?a 2 = Inr a' \<and> dom a' = dom ?a \<and>
      a' 0 = Some (- 1) \<and> a' 1 = Some 6 \<and> a' 3 = Some 5 \<and> a' 6 = Some 9 \<and>
      a' 2 = Some 3 \<and> a' 4 = Some 2 \<and> a' 5 = Some 1"
    by blast
  note x = this
  have ag: "\<forall>k. 1 \<le> k \<and> k \<le> sint (heap_size ?g) \<longrightarrow> (?a |` {1..5}) k = ?a k"
    by simp
  from t r ag obtain b' where
    b': "heapfy ?g (?a |` {1..5}) 2 = Inr b'"
      "\<forall>k. 1 \<le> k \<and> k \<le> sint (heap_size ?g) \<longrightarrow> b' k = a' k"
      "\<forall>k. \<not> (1 \<le> k \<and> k \<le> sint (heap_size ?g)) \<longrightarrow> b' k = (?a |` {1..5}) k"
    by blast
  have "b' 2 = a' 2" "b' 4 = a' 4" "b' 5 = a' 5"
    using b'(2) by simp_all
  moreover have "b' 0 = None" "b' 6 = None"
    using b'(3) by simp_all
  ultimately have "\<exists>b'. heapfy ?g (?a |` {1..5}) 2 = Inr b' \<and>
      b' 0 = None \<and> b' 6 = None \<and> b' 2 = Some 3 \<and> b' 4 = Some 2 \<and> b' 5 = Some 1"
    using b'(1) e [OF r] by auto
  with h al x show ?thesis by blast
qed

text \<open>
  C7. Edge case \<open>n = 0\<close>: \<^verbatim>\<open>heapsort(a, 0)\<close> on an array whose sentinel slot 0 is allocated
  does not fault and runs no iteration of either loop, so \<^verbatim>\<open>heapfy\<close> is never called. It
  returns the array unchanged: the live region is empty, every slot other than the
  sentinel slot 0 holds what it held, and the whole array is as before when the sentinel
  \<open>-1\<close> is in place already. What the call does store is the sentinel in slot 0, which
  callers ignore, and 0 in both globals (C10).
\<close>

theorem heapsort_zero:
  assumes "a 0 \<noteq> None"
  shows "\<exists>g' a'. heapsort g a 0 = Inr (g', a') \<and>
           g' = g\<lparr>length_g := 0, heap_size := 0\<rparr> \<and> a' = a(0 \<mapsto> - 1) \<and>
           (\<forall>k. k \<noteq> 0 \<longrightarrow> a' k = a k) \<and> region a' 0 = region a 0 \<and>
           (a 0 = Some (- 1) \<longrightarrow> a' = a)"
proof -
  have "build_loop h b 0 = Inr b" for h b
    by (subst build_loop.simps) simp
  with assms have "build g a 0 = Inr (g\<lparr>length_g := 0, heap_size := 0\<rparr>, a(0 \<mapsto> - 1))"
    by (simp add: build_Inr_iff)
  then have "heapsort g a 0 = Inr (g\<lparr>length_g := 0, heap_size := 0\<rparr>, a(0 \<mapsto> - 1))"
    by (simp add: heapsort_def heapsort_loop_done)
  moreover have "region (a(0 \<mapsto> - 1)) 0 = region a 0"
    by (simp add: region_def)
  ultimately show ?thesis
    by (simp add: fun_upd_idem)
qed

theorem heapsort_zero_witness:
  "of_list [- 1, 8, 9] 0 \<noteq> None \<and> of_list [- 1, 8, 9] 0 = Some (- 1) \<and>
   heapsort \<lparr>length_g = 5, heap_size = 5\<rparr> (of_list [- 1, 8, 9]) 0 =
     Inr (\<lparr>length_g = 0, heap_size = 0\<rparr>, of_list [- 1, 8, 9]) \<and>
   of_list [7, 8, 9] 0 \<noteq> None \<and>
   (\<exists>g' a'. heapsort \<lparr>length_g = 5, heap_size = 5\<rparr> (of_list [7, 8, 9]) 0 = Inr (g', a') \<and>
      a' 1 = Some 8 \<and> a' 2 = Some 9 \<and> a' 3 = None)"
proof -
  have h: "of_list [- 1, 8, 9] 0 \<noteq> None" "of_list [- 1, 8, 9] 0 = Some (- 1)"
    by (simp_all add: of_list_def)
  have h': "of_list [7, 8, 9] 0 \<noteq> None" by (simp add: of_list_def)
  have v: "of_list [7, 8, 9] 1 = Some 8" "of_list [7, 8, 9] 2 = Some 9" "of_list [7, 8, 9] 3 = None"
    by (simp_all add: of_list_def)
  from heapsort_zero [of "of_list [- 1, 8, 9]" "\<lparr>length_g = 5, heap_size = 5\<rparr>", OF h(1)] h(2)
  have r: "heapsort \<lparr>length_g = 5, heap_size = 5\<rparr> (of_list [- 1, 8, 9]) 0 =
      Inr (\<lparr>length_g = 0, heap_size = 0\<rparr>, of_list [- 1, 8, 9])"
    by auto
  from heapsort_zero [of "of_list [7, 8, 9]" "\<lparr>length_g = 5, heap_size = 5\<rparr>", OF h'] obtain g' a' where
    r': "heapsort \<lparr>length_g = 5, heap_size = 5\<rparr> (of_list [7, 8, 9]) 0 = Inr (g', a')"
      "\<forall>k. k \<noteq> 0 \<longrightarrow> a' k = of_list [7, 8, 9] k"
    by blast
  from r'(2) v have "a' 1 = Some 8" "a' 2 = Some 9" "a' 3 = None"
    by simp_all
  with r' have "\<exists>g' a'. heapsort \<lparr>length_g = 5, heap_size = 5\<rparr> (of_list [7, 8, 9]) 0 = Inr (g', a') \<and>
      a' 1 = Some 8 \<and> a' 2 = Some 9 \<and> a' 3 = None"
    by blast
  with h h' r show ?thesis by blast
qed

text \<open>
  C8 as stated ends with: the operation is a total function under its documented
  precondition \<open>1 \<le> i \<le> liveCount\<close>. With \<open>2^30 + 5\<close> live values, all allocated, and
  \<open>i = 2^30 + 2\<close> the call does not return an array: it stops at an out-of-bounds read.
\<close>

theorem heapfy_terminates_counterexample:
  "1 \<le> sint (1073741826 :: cint) \<and>
   sint (1073741826 :: cint) \<le> sint (heap_size \<lparr>length_g = 1073741829, heap_size = 1073741829\<rparr>) \<and>
   holds (zeros 1073741829) (sint (heap_size \<lparr>length_g = 1073741829, heap_size = 1073741829\<rparr>)) \<and>
   heapfy \<lparr>length_g = 1073741829, heap_size = 1073741829\<rparr> (zeros 1073741829) 1073741826 =
     Inl OutOfBounds"
  by (simp add: heapfy_overflow holds_iff zeros_def)

text \<open>
  C8, amended. \<^verbatim>\<open>heapfy\<close> stops for every array, every \<^verbatim>\<open>heap_size\<close> and every index
  \<open>i \<ge> 1\<close>: with \<open>heap_size < i * 2^k\<close>, \<open>k + 1\<close> nested activations are enough (so 32 always
  are); each recursive call is at \<open>2 * i\<close> or \<open>2 * i + 1\<close>, which is at most \<^verbatim>\<open>heap_size\<close>.
  Under the documented precondition \<open>1 \<le> i \<le> heap_size\<close>, with the live slots
  allocated, it returns an array when \<open>heap_size < 2^30\<close>; for a larger \<^verbatim>\<open>heap_size\<close> it can
  stop at an out-of-bounds access instead.
\<close>

theorem heapfy_terminates:
  assumes "1 \<le> sint i"
  shows "(\<forall>k. sint (heap_size g) < sint i * 2 ^ k \<longrightarrow>
            heapfy_fuel (Suc k) g a i = Some (heapfy g a i)) \<and>
         heapfy_fuel 32 g a i = Some (heapfy g a i) \<and>
         (\<forall>l a1. largest_of g a i = Inr l \<and> l \<noteq> i \<and> swap_cells a i l = Inr a1 \<longrightarrow>
            (sint l = 2 * sint i \<or> sint l = 2 * sint i + 1) \<and> sint l \<le> sint (heap_size g)) \<and>
         (sint i \<le> sint (heap_size g) \<and> sint (heap_size g) < 2 ^ 30 \<and>
          holds_live a (sint (heap_size g)) \<longrightarrow>
            (\<exists>a'. heapfy g a i = Inr a'))"
proof (intro conjI allI impI)
  fix k assume "sint (heap_size g) < sint i * 2 ^ k"
  with assms show "heapfy_fuel (Suc k) g a i = Some (heapfy g a i)"
    by (rule heapfy_fuel_enough)
next
  have "sint (heap_size g) < 2 ^ 31"
    using sint_range32 [of "heap_size g"] by simp
  also have "\<dots> \<le> sint i * 2 ^ 31"
    using assms by simp
  finally have "heapfy_fuel (Suc 31) g a i = Some (heapfy g a i)"
    using assms by (intro heapfy_fuel_enough)
  then show "heapfy_fuel 32 g a i = Some (heapfy g a i)"
    by (simp del: heapfy_fuel.simps)
next
  fix l a1
  assume "largest_of g a i = Inr l \<and> l \<noteq> i \<and> swap_cells a i l = Inr a1"
  then have r: "largest_of g a i = Inr l" "l \<noteq> i" "swap_cells a i l = Inr a1" by simp_all
  show "sint l = 2 * sint i \<or> sint l = 2 * sint i + 1" "sint l \<le> sint (heap_size g)"
    by (rule heapfy_recursive_call [OF r])+
next
  assume "sint i \<le> sint (heap_size g) \<and> sint (heap_size g) < 2 ^ 30 \<and>
    holds_live a (sint (heap_size g))"
  then have h: "sint i \<le> sint (heap_size g) \<and> sint (heap_size g) < 2 ^ 30 \<and>
    (\<forall>k. 1 \<le> k \<and> k \<le> sint (heap_size g) \<longrightarrow> a k \<noteq> None)"
    by (simp add: holds_live_iff)
  then have "\<forall>k. sint i \<le> k \<and> k \<le> sint (heap_size g) \<longrightarrow> a k \<noteq> None"
    using assms by auto
  with h show "\<exists>a'. heapfy g a i = Inr a'"
    using assms by (intro heapfy_total) auto
qed

theorem heapfy_terminates_witness:
  "1 \<le> sint (1 :: cint) \<and>
   sint (heap_size \<lparr>length_g = 3, heap_size = 3\<rparr>) < sint (1 :: cint) * 2 ^ 2 \<and>
   heapfy_fuel (Suc 2) \<lparr>length_g = 3, heap_size = 3\<rparr> (of_list [- 1, 1, 9, 8]) 1 =
     Some (heapfy \<lparr>length_g = 3, heap_size = 3\<rparr> (of_list [- 1, 1, 9, 8]) 1) \<and>
   largest_of \<lparr>length_g = 3, heap_size = 3\<rparr> (of_list [- 1, 1, 9, 8]) 1 = Inr 2 \<and>
   sint (2 :: cint) = 2 * sint (1 :: cint) \<and>
   (\<exists>a'. heapfy \<lparr>length_g = 3, heap_size = 3\<rparr> (of_list [- 1, 1, 9, 8]) 1 = Inr a' \<and> a' 1 = Some 9)"
proof -
  have h: "1 \<le> sint (1 :: cint)" by simp
  have e: "heapfy \<lparr>length_g = 3, heap_size = 3\<rparr> (of_list [- 1, 1, 9, 8]) 1 = Inr a' \<Longrightarrow> a' 1 = Some 9" for a'
    by (auto simp: run_simps)
  have l: "largest_of \<lparr>length_g = 3, heap_size = 3\<rparr> (of_list [- 1, 1, 9, 8]) 1 = Inr 2"
    by (simp add: run_simps)
  have al: "holds_live (of_list [- 1, 1, 9, 8]) (sint (heap_size \<lparr>length_g = 3, heap_size = 3\<rparr>))"
    by (simp add: holds_live_iff of_list_def)
  note t = heapfy_terminates [OF h, of "\<lparr>length_g = 3, heap_size = 3\<rparr>" "of_list [- 1, 1, 9, 8]"]
  have b: "sint (heap_size \<lparr>length_g = 3, heap_size = 3\<rparr>) < sint (1 :: cint) * 2 ^ 2"
    by simp
  from t b have f: "heapfy_fuel (Suc 2) \<lparr>length_g = 3, heap_size = 3\<rparr> (of_list [- 1, 1, 9, 8]) 1 =
      Some (heapfy \<lparr>length_g = 3, heap_size = 3\<rparr> (of_list [- 1, 1, 9, 8]) 1)"
    by blast
  from t al obtain a' where r: "heapfy \<lparr>length_g = 3, heap_size = 3\<rparr> (of_list [- 1, 1, 9, 8]) 1 = Inr a'"
    by auto
  from r e have "\<exists>a'. heapfy \<lparr>length_g = 3, heap_size = 3\<rparr> (of_list [- 1, 1, 9, 8]) 1 = Inr a' \<and>
      a' 1 = Some 9"
    by blast
  with h b f l show ?thesis
    by (simp del: heapfy_fuel.simps)
qed

text \<open>
  C9 as stated says that every call with \<open>i \<ge> 1\<close> and \<open>i > heap_size\<close> is a safe no-op.
  With three live values and \<open>i = 2^30\<close>, \<^verbatim>\<open>i << 1\<close> wraps to \<open>-2^31\<close>, the guard
  \<^verbatim>\<open>lft <= heap_size\<close> holds and the call reads \<^verbatim>\<open>a[i]\<close>, which is not allocated.
\<close>

theorem heapfy_above_live_counterexample:
  "1 \<le> sint (1073741824 :: cint) \<and>
   sint (heap_size \<lparr>length_g = 3, heap_size = 3\<rparr>) < sint (1073741824 :: cint) \<and>
   sint (left 1073741824) = - 2147483648 \<and>
   heapfy \<lparr>length_g = 3, heap_size = 3\<rparr> (of_list [- 1, 9, 8, 7]) 1073741824 = Inl OutOfBounds"
  by (simp add: run_simps)

text \<open>
  C9, amended. For every array and every index \<open>i\<close> with \<open>1 \<le> i < 2^30\<close> and
  \<open>i > heap_size\<close>, \<^verbatim>\<open>heapfy\<close> returns the array as it is; both guards fail, so it reads
  and writes no slot: it returns even when no slot at all is allocated. For \<open>i \<ge> 2^30\<close>
  and \<open>heap_size \<ge> 0\<close> the left child index wraps to a negative number, the guard holds
  and the call stops at an out-of-bounds read.
\<close>

theorem heapfy_above_live:
  assumes "1 \<le> sint i" "sint (heap_size g) < sint i"
  shows "(sint i < 2 ^ 30 \<longrightarrow> heapfy g a i = Inr a \<and> heapfy g Map.empty i = Inr Map.empty) \<and>
         (2 ^ 30 \<le> sint i \<and> 0 \<le> sint (heap_size g) \<longrightarrow> heapfy g a i = Inl OutOfBounds)"
  using assms heapfy_above [of i g] heapfy_overflow [of i g a] by auto

theorem heapfy_above_live_witness:
  "1 \<le> sint (5 :: cint) \<and> sint (heap_size \<lparr>length_g = 3, heap_size = 3\<rparr>) < sint (5 :: cint) \<and>
   sint (5 :: cint) < 2 ^ 30 \<and>
   heapfy \<lparr>length_g = 3, heap_size = 3\<rparr> (of_list [- 1, 9, 8, 7]) 5 = Inr (of_list [- 1, 9, 8, 7]) \<and>
   heapfy \<lparr>length_g = 3, heap_size = 3\<rparr> Map.empty 5 = Inr Map.empty \<and>
   1 \<le> sint (1073741825 :: cint) \<and>
   sint (heap_size \<lparr>length_g = 3, heap_size = 3\<rparr>) < sint (1073741825 :: cint) \<and>
   2 ^ 30 \<le> sint (1073741825 :: cint) \<and> 0 \<le> sint (heap_size \<lparr>length_g = 3, heap_size = 3\<rparr>) \<and>
   heapfy \<lparr>length_g = 3, heap_size = 3\<rparr> (zeros 3) 1073741825 = Inl OutOfBounds"
proof -
  have h: "1 \<le> sint (5 :: cint)" "sint (heap_size \<lparr>length_g = 3, heap_size = 3\<rparr>) < sint (5 :: cint)"
    by simp_all
  have h': "1 \<le> sint (1073741825 :: cint)"
    "sint (heap_size \<lparr>length_g = 3, heap_size = 3\<rparr>) < sint (1073741825 :: cint)"
    by simp_all
  show ?thesis
    using h heapfy_above_live [OF h, of "of_list [- 1, 9, 8, 7]"]
      heapfy_above_live [OF h', of "zeros 3"]
    by simp
qed

text \<open>
  C10. Every call of \<^verbatim>\<open>build(a, n)\<close> that returns has assigned \<open>n\<close> to both globals
  \<^verbatim>\<open>heap_size\<close> and \<^verbatim>\<open>length\<close>, whatever \<^verbatim>\<open>length\<close> was before, and has stored the sentinel
  \<open>-1\<close> in slot 0. After \<^verbatim>\<open>heapsort(a, n)\<close> with \<open>n \<ge> 0\<close> (the documented precondition)
  returns, \<^verbatim>\<open>heap_size\<close> is 0, \<^verbatim>\<open>length\<close> is \<open>n\<close> and slot 0 holds \<open>-1\<close>. Both calls return
  whenever \<open>0 \<le> n < 2^30\<close> and the slots \<open>0..n\<close> are allocated.
\<close>

theorem build_sets_globals_and_sentinel:
  "(\<forall>g' a'. build g a n = Inr (g', a') \<longrightarrow>
      heap_size g' = n \<and> length_g g' = n \<and> a' 0 = Some (- 1)) \<and>
   (0 \<le> sint n \<longrightarrow>
      (\<forall>g' a'. heapsort g a n = Inr (g', a') \<longrightarrow>
         heap_size g' = 0 \<and> length_g g' = n \<and> a' 0 = Some (- 1))) \<and>
   (0 \<le> sint n \<and> sint n < 2 ^ 30 \<and> holds a (sint n) \<longrightarrow>
      (\<exists>g' a'. build g a n = Inr (g', a')) \<and> (\<exists>g' a'. heapsort g a n = Inr (g', a')))"
proof (intro conjI allI impI)
  fix g' a' assume b: "build g a n = Inr (g', a')"
  show "heap_size g' = n" "length_g g' = n"
    using b by (simp_all add: build_Inr_iff)
  show "a' 0 = Some (- 1)"
  proof (cases "0 \<le> sint n")
    case True
    then show ?thesis by (rule build_sound(3) [OF b])
  next
    case False
    then show ?thesis using build_negative(2) [OF _ b] by simp
  qed
next
  fix g' a' assume "0 \<le> sint n" "heapsort g a n = Inr (g', a')"
  note s = heapsort_sound [OF this(2,1)]
  show "heap_size g' = 0" "length_g g' = n" "a' 0 = Some (- 1)"
    by (rule s(3) s(4) s(5))+
next
  assume "0 \<le> sint n \<and> sint n < 2 ^ 30 \<and> holds a (sint n)"
  then show "\<exists>g' a'. build g a n = Inr (g', a')" "\<exists>g' a'. heapsort g a n = Inr (g', a')"
    using build_total [of n a g] heapsort_total [of n a g] by auto
qed

theorem build_sets_globals_and_sentinel_witness:
  "0 \<le> sint (3 :: cint) \<and> sint (3 :: cint) < 2 ^ 30 \<and> holds (of_list [7, 1, 3, 2]) (sint (3 :: cint)) \<and>
   (\<exists>g' a'. build \<lparr>length_g = 9, heap_size = 8\<rparr> (of_list [7, 1, 3, 2]) 3 = Inr (g', a') \<and>
      heap_size g' = 3 \<and> length_g g' = 3 \<and> a' 0 = Some (- 1)) \<and>
   (\<exists>g' a'. heapsort \<lparr>length_g = 9, heap_size = 8\<rparr> (of_list [7, 1, 3, 2]) 3 = Inr (g', a') \<and>
      heap_size g' = 0 \<and> length_g g' = 3 \<and> a' 0 = Some (- 1))"
proof -
  have h: "0 \<le> sint (3 :: cint) \<and> sint (3 :: cint) < 2 ^ 30 \<and> holds (of_list [7, 1, 3, 2]) (sint (3 :: cint))"
    by (simp add: holds_of_list)
  have nn: "0 \<le> sint (3 :: cint)" by simp
  note t = build_sets_globals_and_sentinel [of "\<lparr>length_g = 9, heap_size = 8\<rparr>" "of_list [7, 1, 3, 2]" 3]
  from t h obtain g1 a1 g2 a2 where
    r: "build \<lparr>length_g = 9, heap_size = 8\<rparr> (of_list [7, 1, 3, 2]) 3 = Inr (g1, a1)"
       "heapsort \<lparr>length_g = 9, heap_size = 8\<rparr> (of_list [7, 1, 3, 2]) 3 = Inr (g2, a2)"
    by blast
  with t nn have "heap_size g1 = 3 \<and> length_g g1 = 3 \<and> a1 0 = Some (- 1)"
    "heap_size g2 = 0 \<and> length_g g2 = 3 \<and> a2 0 = Some (- 1)"
    by blast+
  with r h show ?thesis by blast
qed

end
